theory Spec2Isabelle
  imports Complex_Main "HOL-Library.Word"
begin

unbundle bit_operations_syntax

section \<open>Machine types, error codes and outcomes\<close>

type_synonym u8 = "8 word"
type_synonym u32 = "32 word"

text \<open>The error codes of \<^verbatim>\<open>errors.h\<close>, one constructor per code.\<close>

datatype error =
    ERROR_INVALID_PORT
  | ERROR_HOSTNAME_INFORMATION
  | ERROR_CREATE_SOCKET
  | ERROR_CONNECT_SOCKET
  | ERROR_SOCKET_DRY
  | ERROR_SOCKET_READ
  | ERROR_SOCKET_WRITE
  | ERROR_OUT_OF_MEMORY
  | ERROR_INVALID_NUMBER_STATES
  | ERROR_ZERO_STATE_LENGTH
  | ERROR_STATE_LENGTH_LONG
  | ERROR_DUPLICATE_STATE
  | ERROR_INVALID_NUM_AGENTS
  | ERROR_INVALID_TIME_LIMIT
  | ERROR_UAMP_CLIENT_MVISP_SERVER
  | ERROR_MVISP_CLIENT_UAMP_SERVER
  | ERROR_SERVER_UNKNOWN_HANDSHAKE
  | ERROR_SIMULATION_DENIED
  | ERROR_SIMULATION_RESPONSE_BAD
  | ERROR_NO_MORE_DATA
  | ERROR_INVALID_CHANGE_TIME
  | ERROR_INVALID_CHANGE_STATE
  | ERROR_NO_INTERSECTION
  | ERROR_NO_SHARED_VERSION
  | ERROR_2D_CLIENT_3D_SERVER
  | ERROR_ADD_REMOVE_UNSUPPORTED
  | ERROR_INVALID_FEATURES
  | ERROR_SERVER_REJECTED_HANDSHAKE
  | ERROR_SERVER_CLIENT_VERSION_DISAGREE
  | ERROR_MVISP_NO_AGENTS
  | ERROR_FIRST_UPDATE_TIME
  | ERROR_NON_EQUAL_FINAL_UPDATES
  | ERROR_TIMESTAMP_TOO_LARGE
  | ERROR_TIMESTAMP_NOT_INCREMENTED
  | ERROR_INVALID_PRESENT_FLAG

text \<open>
  What a library call can do. \<open>Success\<close> is the return value 0 and \<open>Failure e\<close> the
  negative code of \<open>e\<close>. \<open>Aborted\<close> is a failed \<^verbatim>\<open>ASSERT\<close>, which prints and calls
  \<^verbatim>\<open>abort()\<close>. \<open>NoReturn\<close> marks the places where the C function has no defined
  return at all (an array index out of range, a loop that cannot make progress).
  Only \<open>Failure\<close> reaches the clean-up code after an \<^verbatim>\<open>isErr\<close> label.
\<close>

datatype ret = Success | Failure error | Aborted | NoReturn

fun error_code :: "error \<Rightarrow> int" where
  "error_code ERROR_INVALID_PORT = -1"
| "error_code ERROR_HOSTNAME_INFORMATION = -2"
| "error_code ERROR_CREATE_SOCKET = -3"
| "error_code ERROR_CONNECT_SOCKET = -4"
| "error_code ERROR_SOCKET_DRY = -5"
| "error_code ERROR_SOCKET_READ = -6"
| "error_code ERROR_SOCKET_WRITE = -7"
| "error_code ERROR_OUT_OF_MEMORY = -8"
| "error_code ERROR_INVALID_NUMBER_STATES = -9"
| "error_code ERROR_ZERO_STATE_LENGTH = -10"
| "error_code ERROR_STATE_LENGTH_LONG = -11"
| "error_code ERROR_DUPLICATE_STATE = -12"
| "error_code ERROR_INVALID_NUM_AGENTS = -13"
| "error_code ERROR_INVALID_TIME_LIMIT = -14"
| "error_code ERROR_UAMP_CLIENT_MVISP_SERVER = -15"
| "error_code ERROR_MVISP_CLIENT_UAMP_SERVER = -16"
| "error_code ERROR_SERVER_UNKNOWN_HANDSHAKE = -17"
| "error_code ERROR_SIMULATION_DENIED = -18"
| "error_code ERROR_SIMULATION_RESPONSE_BAD = -19"
| "error_code ERROR_NO_MORE_DATA = -20"
| "error_code ERROR_INVALID_CHANGE_TIME = -21"
| "error_code ERROR_INVALID_CHANGE_STATE = -22"
| "error_code ERROR_NO_INTERSECTION = -23"
| "error_code ERROR_NO_SHARED_VERSION = -24"
| "error_code ERROR_2D_CLIENT_3D_SERVER = -25"
| "error_code ERROR_ADD_REMOVE_UNSUPPORTED = -26"
| "error_code ERROR_INVALID_FEATURES = -27"
| "error_code ERROR_SERVER_REJECTED_HANDSHAKE = -28"
| "error_code ERROR_SERVER_CLIENT_VERSION_DISAGREE = -29"
| "error_code ERROR_MVISP_NO_AGENTS = -30"
| "error_code ERROR_FIRST_UPDATE_TIME = -31"
| "error_code ERROR_NON_EQUAL_FINAL_UPDATES = -32"
| "error_code ERROR_TIMESTAMP_TOO_LARGE = -33"
| "error_code ERROR_TIMESTAMP_NOT_INCREMENTED = -34"
| "error_code ERROR_INVALID_PRESENT_FLAG = -35"

fun is_failure :: "ret \<Rightarrow> bool" where
  "is_failure (Failure e) = True"
| "is_failure r = False"

section \<open>The socket and the server behind it\<close>

text \<open>
  The operating system and the server are the environment of the library. \<open>incoming\<close> are
  the bytes the server will send, in order; when they run out, \<^verbatim>\<open>read\<close> returns 0
  (end of stream) or, with \<open>read_fault\<close>, a negative value. \<open>sent\<close> are the bytes
  delivered to the server. \<open>write_room\<close>, when given, is the number of bytes the socket still
  accepts before \<^verbatim>\<open>write\<close> starts to fail. One system call transfers at most
  \<open>Suc chunk\<close> bytes (short reads and writes). \<open>net\<close> is what the calls of
  \<^verbatim>\<open>callSocket\<close> will meet, \<open>is_open\<close> tells whether the descriptor is open,
  \<open>alloc_ok\<close> whether \<^verbatim>\<open>calloc\<close> finds memory, and \<open>llround_invalid\<close> is the value that
  \<^verbatim>\<open>llround\<close> of this C library returns for an argument it cannot round into a
  \<^verbatim>\<open>long long\<close> (a NaN, an infinity, a value out of range), which C leaves unspecified.
\<close>

datatype net_outcome = HostUnknown | SocketRefused | ConnectRefused | Connected nat

record world =
  incoming :: "u8 list"
  read_fault :: bool
  sent :: "u8 list"
  write_room :: "nat option"
  chunk :: nat
  net :: net_outcome
  is_open :: bool
  alloc_ok :: bool
  llround_invalid :: int

definition SSIZE_MAX :: nat where
  "SSIZE_MAX = 2 ^ 63 - 1"

definition os_read :: "world \<Rightarrow> nat \<Rightarrow> int \<times> u8 list \<times> world" where
  "os_read w n =
     (if incoming w = [] then ((if read_fault w then - 1 else 0), [], w)
      else let k = min n (min (length (incoming w)) (Suc (chunk w)))
           in (int k, take k (incoming w), w\<lparr>incoming := drop k (incoming w)\<rparr>))"

definition os_write :: "world \<Rightarrow> u8 list \<Rightarrow> int \<times> world" where
  "os_write w bs =
     (let k = min (length bs) (Suc (chunk w))
      in case write_room w of
           None \<Rightarrow> (int k, w\<lparr>sent := sent w @ take k bs\<rparr>)
         | Some r \<Rightarrow>
             if r = 0 then (- 1, w)
             else let k' = min k r
                  in (int k', w\<lparr>sent := sent w @ take k' bs, write_room := Some (r - k')\<rparr>))"

definition os_close :: "world \<Rightarrow> world" where
  "os_close w = w\<lparr>is_open := False\<rparr>"

text \<open>\<^verbatim>\<open>callSocket\<close> of \<^verbatim>\<open>socketWrapper.c\<close>: the descriptor, or the error.\<close>

definition callSocket :: "world \<Rightarrow> nat \<Rightarrow> (error + int) \<times> world" where
  "callSocket w portnum =
     (if portnum = 0 then (Inl ERROR_INVALID_PORT, w)
      else case net w of
             HostUnknown \<Rightarrow> (Inl ERROR_HOSTNAME_INFORMATION, w)
           | SocketRefused \<Rightarrow> (Inl ERROR_CREATE_SOCKET, w)
           | ConnectRefused \<Rightarrow> (Inl ERROR_CONNECT_SOCKET, os_close w)
           | Connected d \<Rightarrow> (Inr (int d), w\<lparr>is_open := True\<rparr>))"

text \<open>\<^verbatim>\<open>socketRead\<close>: loops until \<open>nBytes\<close> bytes have arrived.\<close>

function socketRead :: "world \<Rightarrow> nat \<Rightarrow> ret \<times> u8 list \<times> world" where
  "socketRead w nBytes =
     (if nBytes > 0 then
        (let thisTime = (if nBytes < SSIZE_MAX then nBytes else SSIZE_MAX)
         in case os_read w thisTime of
              (res, bs, w') \<Rightarrow>
                if res = 0 then (Failure ERROR_SOCKET_DRY, bs, w')
                else if res < 0 then (Failure ERROR_SOCKET_READ, bs, w')
                else (case socketRead w' (nBytes - nat res) of
                        (r, bs', w'') \<Rightarrow> (r, bs @ bs', w'')))
      else (Success, [], w))"
  by pat_completeness auto
termination
  by (relation "measure (\<lambda>(w, n). n)") auto

declare socketRead.simps [simp del]

text \<open>\<^verbatim>\<open>socketWrite\<close>: loops until all of \<open>bs\<close> has been written.\<close>

function socketWrite :: "world \<Rightarrow> u8 list \<Rightarrow> ret \<times> world" where
  "socketWrite w bs =
     (if length bs > 0 then
        (let thisTime = (if length bs < SSIZE_MAX then length bs else SSIZE_MAX)
         in case os_write w (take thisTime bs) of
              (res, w') \<Rightarrow>
                if res < 0 then (Failure ERROR_SOCKET_WRITE, w')
                else socketWrite w' (drop (nat res) bs))
      else (Success, w))"
  by pat_completeness auto
termination
  apply (relation "measure (\<lambda>(w, bs). length bs)")
   apply simp
  apply (auto simp: os_write_def Let_def SSIZE_MAX_def split: option.splits if_splits)
  done

declare socketWrite.simps [simp del]

section \<open>The framed I/O buffer (\<^verbatim>\<open>ioBuffer.c\<close>)\<close>

text \<open>
  \<^verbatim>\<open>struct uampIOBuffer\<close>. The two 64-bit counters are natural numbers with the
  wrap-around written out (\<open>u64\<close>). The byte array and its fill count \<^verbatim>\<open>inBuffer\<close>
  are represented together by the list \<open>buffer\<close> of the bytes that are valid in the array:
  \<^verbatim>\<open>inBuffer\<close> is its length. When reading, these are the bytes at the high end of the
  array, still to be handed out; when writing, the bytes at the low end, still to be
  flushed.
\<close>

record uampIOBuffer =
  total :: nat
  passed :: nat
  buffer :: "u8 list"

definition UAMP_IO_BUFFER_SIZE :: nat where
  "UAMP_IO_BUFFER_SIZE = 2048"

definition u64 :: "nat \<Rightarrow> nat" where
  "u64 n = n mod 2 ^ 64"

definition u64_sub :: "nat \<Rightarrow> nat \<Rightarrow> nat" where
  "u64_sub a b = nat ((int a - int b) mod 2 ^ 64)"

definition beginRead :: "uampIOBuffer \<Rightarrow> nat \<Rightarrow> uampIOBuffer" where
  "beginRead buf t = buf\<lparr>total := t, passed := 0, buffer := []\<rparr>"

definition beginWrite :: "uampIOBuffer \<Rightarrow> nat \<Rightarrow> uampIOBuffer" where
  "beginWrite buf t = buf\<lparr>total := t, passed := 0, buffer := []\<rparr>"

text \<open>
  The loop of \<^verbatim>\<open>socketReadRaw\<close>. If a refill leaves the buffer empty although bytes
  are still wanted, the C loop spins without progress: \<open>NoReturn\<close>. The assertion in front
  of the loop excludes it.
\<close>

function socketReadRaw_loop ::
  "uampIOBuffer \<Rightarrow> world \<Rightarrow> nat \<Rightarrow> ret \<times> u8 list \<times> uampIOBuffer \<times> world" where
  "socketReadRaw_loop buf w len =
     (if len > 0 then
        (case (if buffer buf = [] then
                 (let remaining = u64_sub (total buf) (passed buf);
                      thisTime = (if remaining < UAMP_IO_BUFFER_SIZE then remaining
                                  else UAMP_IO_BUFFER_SIZE)
                  in case socketRead w thisTime of
                       (r, bs, w') \<Rightarrow>
                         if r \<noteq> Success then (r, buf, w') else (Success, buf\<lparr>buffer := bs\<rparr>, w'))
               else (Success, buf, w)) of
           (r, buf1, w1) \<Rightarrow>
             if r \<noteq> Success then (r, [], buf1, w1)
             else if buffer buf1 = [] then (NoReturn, [], buf1, w1)
             else
               (let thisTime = (if len < length (buffer buf1) then len
                                else length (buffer buf1));
                    out = take thisTime (buffer buf1);
                    buf2 = buf1\<lparr>buffer := drop thisTime (buffer buf1),
                                passed := u64 (passed buf1 + thisTime)\<rparr>
                in case socketReadRaw_loop buf2 w1 (len - thisTime) of
                     (r', bs', buf3, w3) \<Rightarrow> (r', out @ bs', buf3, w3)))
      else (Success, [], buf, w))"
  by pat_completeness auto
termination
  apply (relation "measure (\<lambda>(buf, w, len). len)")
   apply simp
  apply (auto split: if_splits)
  done

declare socketReadRaw_loop.simps [simp del]

definition socketReadRaw ::
  "uampIOBuffer \<Rightarrow> world \<Rightarrow> nat \<Rightarrow> ret \<times> u8 list \<times> uampIOBuffer \<times> world" where
  "socketReadRaw buf w len =
     (let totalPassed = u64 (passed buf + len)
      in if \<not> (totalPassed \<ge> passed buf \<and> totalPassed \<ge> len \<and> totalPassed \<le> total buf)
         then (Aborted, [], buf, w)
         else socketReadRaw_loop buf w len)"

text \<open>Big-endian encoding and decoding of a 32-bit value (\<^verbatim>\<open>htonl\<close>, \<^verbatim>\<open>ntohl\<close>).\<close>

definition be32 :: "u32 \<Rightarrow> u8 list" where
  "be32 v = [ucast (drop_bit 24 v), ucast (drop_bit 16 v), ucast (drop_bit 8 v), ucast v]"

fun un_be32 :: "u8 list \<Rightarrow> u32" where
  "un_be32 [a, b, c, d] =
     push_bit 24 (ucast a) OR push_bit 16 (ucast b) OR push_bit 8 (ucast c) OR ucast d"
| "un_be32 bs = 0"

text \<open>
  \<^verbatim>\<open>socketRead8\<close> and \<^verbatim>\<open>socketRead32\<close> store through a pointer. The argument
  \<open>input\<close> is the value behind the pointer before the call, the second component of the
  result the value after it: unchanged when the read fails.
\<close>

definition socketRead8 ::
  "uampIOBuffer \<Rightarrow> world \<Rightarrow> u8 \<Rightarrow> ret \<times> u8 \<times> uampIOBuffer \<times> world" where
  "socketRead8 buf w input =
     (case socketReadRaw buf w 1 of
        (r, bs, buf', w') \<Rightarrow>
          if r \<noteq> Success then (r, input, buf', w') else (Success, hd bs, buf', w'))"

definition socketRead32 ::
  "uampIOBuffer \<Rightarrow> world \<Rightarrow> u32 \<Rightarrow> ret \<times> u32 \<times> uampIOBuffer \<times> world" where
  "socketRead32 buf w input =
     (case socketReadRaw buf w 4 of
        (r, bs, buf', w') \<Rightarrow>
          if r \<noteq> Success then (r, input, buf', w') else (Success, un_be32 bs, buf', w'))"

text \<open>
  The loop of \<^verbatim>\<open>socketWriteRaw\<close>. A fill count above the array size would make
  \<^verbatim>\<open>memcpy\<close> write behind the array: \<open>NoReturn\<close>.
\<close>

function socketWriteRaw_loop ::
  "uampIOBuffer \<Rightarrow> world \<Rightarrow> u8 list \<Rightarrow> ret \<times> uampIOBuffer \<times> world" where
  "socketWriteRaw_loop buf w data =
     (if length data > 0 then
        (if length (buffer buf) > UAMP_IO_BUFFER_SIZE then (NoReturn, buf, w)
         else
           (let space = UAMP_IO_BUFFER_SIZE - length (buffer buf);
                thisTime = (if length data < space then length data else space);
                buf1 = buf\<lparr>buffer := buffer buf @ take thisTime data,
                            passed := u64 (passed buf + thisTime)\<rparr>
            in if length (buffer buf1) = UAMP_IO_BUFFER_SIZE \<or> passed buf1 = total buf1 then
                 (case socketWrite w (buffer buf1) of
                    (r, w') \<Rightarrow>
                      if r \<noteq> Success then (r, buf1, w')
                      else socketWriteRaw_loop (buf1\<lparr>buffer := []\<rparr>) w' (drop thisTime data))
               else socketWriteRaw_loop buf1 w (drop thisTime data)))
      else (Success, buf, w))"
  by pat_completeness auto
termination
  apply (relation "measure (\<lambda>(buf, w, data).
         2 * length data + (if length (buffer buf) = UAMP_IO_BUFFER_SIZE then 1 else 0))")
    apply simp
   apply (auto simp: UAMP_IO_BUFFER_SIZE_def split: if_splits)
  done

declare socketWriteRaw_loop.simps [simp del]

definition socketWriteRaw ::
  "uampIOBuffer \<Rightarrow> world \<Rightarrow> u8 list \<Rightarrow> ret \<times> uampIOBuffer \<times> world" where
  "socketWriteRaw buf w data =
     (let len = length data;
          totalPassed = u64 (passed buf + len)
      in if \<not> (totalPassed \<ge> passed buf \<and> totalPassed \<ge> len \<and> totalPassed \<le> total buf)
         then (Aborted, buf, w)
         else socketWriteRaw_loop buf w data)"

definition socketWrite8 :: "uampIOBuffer \<Rightarrow> world \<Rightarrow> u8 \<Rightarrow> ret \<times> uampIOBuffer \<times> world" where
  "socketWrite8 buf w v = socketWriteRaw buf w [v]"

definition socketWrite32 :: "uampIOBuffer \<Rightarrow> world \<Rightarrow> u32 \<Rightarrow> ret \<times> uampIOBuffer \<times> world" where
  "socketWrite32 buf w v = socketWriteRaw buf w (be32 v)"

section \<open>The data of a session (\<^verbatim>\<open>uampClient.h\<close>)\<close>

text \<open>
  \<^verbatim>\<open>struct uampUpdate\<close>, \<^verbatim>\<open>struct uampAgent\<close>, \<^verbatim>\<open>struct uampState\<close> and
  \<^verbatim>\<open>struct uampClient\<close>. Field names carry a short prefix where the C name alone
  (\<^verbatim>\<open>x\<close>, \<^verbatim>\<open>time\<close>) would clash with variables. A C \<^verbatim>\<open>int\<close> is an \<open>int\<close>, the
  flag \<^verbatim>\<open>receivedFinal\<close> a \<open>bool\<close>. The array \<^verbatim>\<open>updates\<close> is a list of
  \<open>UAMP_UPDATE_QUEUE_SIZE\<close> entries, \<^verbatim>\<open>changes\<close> a list of \<open>UAMP_STATE_BUFFER_SIZE\<close>
  entries, and the pointer \<^verbatim>\<open>agents\<close> is \<open>None\<close> when it is \<^verbatim>\<open>NULL\<close>.
\<close>

record uampUpdate =
  upd_time :: u32
  upd_x :: u32
  upd_y :: u32
  upd_z :: u32
  upd_present :: u8

definition INT_MAX :: int where
  "INT_MAX = 2147483647"

definition UAMP_UPDATE_QUEUE_SIZE :: int where
  "UAMP_UPDATE_QUEUE_SIZE = 6"

record uampAgent =
  updates :: "uampUpdate list"
  currentIndex :: int
  aliveInQueue :: int
  recvIndex :: int
  receivedFinal :: bool

definition UAMP_STATE_BUFFER_SIZE :: int where
  "UAMP_STATE_BUFFER_SIZE = 128"

record uampState =
  st_agentID :: u32
  st_time :: u32
  st_newState :: u32

record uampClient =
  fd :: int
  commBuf :: uampIOBuffer
  serverFeatures :: u32
  numAgents :: u32
  timeLimit :: u32
  numStates :: u32
  agents :: "uampAgent list option"
  largestLastTime :: u32
  smallestCurrentTime :: u32
  changes :: "uampState list"
  numChanges :: int

text \<open>
  The times that the caller passes to \<^verbatim>\<open>uampConnect\<close> and \<^verbatim>\<open>uampChangeState\<close> are
  values of the C type \<^verbatim>\<open>double\<close> (IEEE 754 binary64): a finite value, which is the real
  number it denotes, an infinity or a NaN. The two zeros are not told apart; nothing here
  depends on the sign of a zero. A comparison with a NaN is false.
\<close>

datatype double = Finite real | PlusInfinity | MinusInfinity | NaN

fun dless :: "double \<Rightarrow> double \<Rightarrow> bool" where
  "dless (Finite a) (Finite b) = (a < b)"
| "dless NaN b = False"
| "dless a NaN = False"
| "dless MinusInfinity MinusInfinity = False"
| "dless MinusInfinity b = True"
| "dless PlusInfinity b = False"
| "dless (Finite a) PlusInfinity = True"
| "dless (Finite a) MinusInfinity = False"

text \<open>
  The result of an arithmetic operation is the exact result rounded to the nearest
  \<^verbatim>\<open>double\<close>, halves to the even neighbour (the default rounding mode): a real \<open>x\<close> with
  \<open>2\<^sup>e \<le> \<bar>x\<bar> < 2\<^sup>e\<^sup>+\<^sup>1\<close> is rounded to a multiple of \<open>2\<^sup>e\<^sup>-\<^sup>5\<^sup>2\<close> (of \<open>2\<^sup>-\<^sup>1\<^sup>0\<^sup>7\<^sup>4\<close> for the
  subnormal numbers), and to an infinity when the rounded value reaches \<open>2\<^sup>1\<^sup>0\<^sup>2\<^sup>4\<close>.
  \<open>is_double r\<close> tells that the real \<open>r\<close> is the value of a \<^verbatim>\<open>double\<close>.
\<close>

definition round_half_even :: "real \<Rightarrow> int" where
  "round_half_even y =
     (let f = \<lfloor>y\<rfloor>
      in if y - of_int f < 1 / 2 then f
         else if y - of_int f > 1 / 2 then f + 1
         else if even f then f else f + 1)"

definition double_exponent :: "real \<Rightarrow> int" where
  "double_exponent x = max \<lfloor>log 2 \<bar>x\<bar>\<rfloor> (- 1022)"

definition double_ulp :: "real \<Rightarrow> real" where
  "double_ulp x = 2 powr (of_int (double_exponent x) - 52)"

definition round_double :: "real \<Rightarrow> double" where
  "round_double x =
     (if x = 0 then Finite 0
      else
        (let v = double_ulp x * of_int (round_half_even (x / double_ulp x))
         in if \<bar>v\<bar> \<ge> 2 ^ 1024 then (if x > 0 then PlusInfinity else MinusInfinity)
            else Finite v))"

definition is_double :: "real \<Rightarrow> bool" where
  "is_double r \<longleftrightarrow> round_double r = Finite r"

text \<open>The product \<^verbatim>\<open>a * b\<close> of two values of type \<^verbatim>\<open>double\<close>.\<close>

fun dmul :: "double \<Rightarrow> double \<Rightarrow> double" where
  "dmul (Finite a) (Finite b) = round_double (a * b)"
| "dmul NaN b = NaN"
| "dmul a NaN = NaN"
| "dmul (Finite a) PlusInfinity =
     (if a = 0 then NaN else if a > 0 then PlusInfinity else MinusInfinity)"
| "dmul (Finite a) MinusInfinity =
     (if a = 0 then NaN else if a > 0 then MinusInfinity else PlusInfinity)"
| "dmul PlusInfinity (Finite b) =
     (if b = 0 then NaN else if b > 0 then PlusInfinity else MinusInfinity)"
| "dmul MinusInfinity (Finite b) =
     (if b = 0 then NaN else if b > 0 then MinusInfinity else PlusInfinity)"
| "dmul PlusInfinity PlusInfinity = PlusInfinity"
| "dmul PlusInfinity MinusInfinity = MinusInfinity"
| "dmul MinusInfinity PlusInfinity = MinusInfinity"
| "dmul MinusInfinity MinusInfinity = PlusInfinity"

text \<open>
  \<^verbatim>\<open>llround\<close> of the C library: a finite value is rounded to the nearest integer, halves
  away from zero; where that integer is no \<^verbatim>\<open>long long\<close>, and for an infinity or a NaN,
  the result is the unspecified value of this library.
\<close>

definition round_half_away :: "real \<Rightarrow> int" where
  "round_half_away v = (if v \<ge> 0 then \<lfloor>v + 1 / 2\<rfloor> else - \<lfloor>- v + 1 / 2\<rfloor>)"

definition llround :: "world \<Rightarrow> double \<Rightarrow> int" where
  "llround w d =
     (case d of
        Finite v \<Rightarrow>
          if - (2 ^ 63) \<le> round_half_away v \<and> round_half_away v < 2 ^ 63
          then round_half_away v else llround_invalid w
      | _ \<Rightarrow> llround_invalid w)"

text \<open>
  The constant \<^verbatim>\<open>UAMP_MAX_TIME\<close> is written \<^verbatim>\<open>4294967.295\<close> in the source; its value is
  the \<^verbatim>\<open>double\<close> nearest to that decimal number.
\<close>

definition UAMP_MAX_TIME :: real where
  "UAMP_MAX_TIME = 2305843008676823 / 536870912"

text \<open>
  In the commands handed to the caller and in the time limit handed to the acceptance
  predicate of \<^verbatim>\<open>mvispConnect\<close>, a \<^verbatim>\<open>double\<close> is the real number that the exact
  arithmetic gives.
\<close>

definition UAMP_SUPPORTS_3D :: u32 where
  "UAMP_SUPPORTS_3D = 0x80000000"

definition UAMP_SUPPORTS_ADD_REMOVE :: u32 where
  "UAMP_SUPPORTS_ADD_REMOVE = 0x40000000"

section \<open>The state-change batcher (\<^verbatim>\<open>states.c\<close>)\<close>

text \<open>The loop of \<^verbatim>\<open>flushStateChanges\<close> over the buffered changes.\<close>

fun write_changes :: "uampIOBuffer \<Rightarrow> world \<Rightarrow> uampState list \<Rightarrow> ret \<times> uampIOBuffer \<times> world" where
  "write_changes buf w [] = (Success, buf, w)"
| "write_changes buf w (ch # rest) =
     (case socketWrite32 buf w (st_agentID ch) of
        (r1, buf1, w1) \<Rightarrow>
          if r1 \<noteq> Success then (r1, buf1, w1)
          else (case socketWrite32 buf1 w1 (st_time ch) of
                  (r2, buf2, w2) \<Rightarrow>
                    if r2 \<noteq> Success then (r2, buf2, w2)
                    else (case socketWrite32 buf2 w2 (st_newState ch) of
                            (r3, buf3, w3) \<Rightarrow>
                              if r3 \<noteq> Success then (r3, buf3, w3)
                              else write_changes buf3 w3 rest)))"

text \<open>
  \<^verbatim>\<open>flushStateChanges\<close>. A count above the size of the array would read behind it:
  \<open>NoReturn\<close>.
\<close>

definition flushStateChanges :: "uampClient \<Rightarrow> world \<Rightarrow> ret \<times> uampClient \<times> world" where
  "flushStateChanges client w =
     (if numChanges client > int (length (changes client)) then (NoReturn, client, w)
      else
        (let totalLen = u64 (5 + 12 * nat (numChanges client mod 2 ^ 64));
             buf0 = beginWrite (commBuf client) totalLen
         in case socketWrite8 buf0 w 0x02 of
              (r1, buf1, w1) \<Rightarrow>
                if r1 \<noteq> Success then (r1, client\<lparr>commBuf := buf1\<rparr>, w1)
                else (case socketWrite32 buf1 w1 (word_of_int (numChanges client)) of
                        (r2, buf2, w2) \<Rightarrow>
                          if r2 \<noteq> Success then (r2, client\<lparr>commBuf := buf2\<rparr>, w2)
                          else (case write_changes buf2 w2
                                       (take (nat (numChanges client)) (changes client)) of
                                  (r3, buf3, w3) \<Rightarrow>
                                    if r3 \<noteq> Success then (r3, client\<lparr>commBuf := buf3\<rparr>, w3)
                                    else (Success,
                                          client\<lparr>commBuf := buf3, numChanges := 0\<rparr>, w3)))))"

text \<open>
  \<^verbatim>\<open>addStateChange\<close>. An index outside the array is an out-of-bounds write:
  \<open>NoReturn\<close>.
\<close>

definition addStateChange ::
  "uampClient \<Rightarrow> world \<Rightarrow> u32 \<Rightarrow> u32 \<Rightarrow> u32 \<Rightarrow> ret \<times> uampClient \<times> world" where
  "addStateChange client w agentID time newState =
     (if numChanges client < 0 \<or> numChanges client \<ge> int (length (changes client))
      then (NoReturn, client, w)
      else
        (let client1 = client\<lparr>changes := (changes client)[nat (numChanges client) :=
                                 \<lparr>st_agentID = agentID, st_time = time, st_newState = newState\<rparr>],
                               numChanges := numChanges client + 1\<rparr>
         in if numChanges client1 = UAMP_STATE_BUFFER_SIZE then flushStateChanges client1 w
            else (Success, client1, w)))"

section \<open>State changes in the public interface (\<^verbatim>\<open>uampClient.c\<close>)\<close>

text \<open>
  \<^verbatim>\<open>uampChangeState\<close>. In the comparisons of an \<^verbatim>\<open>int\<close> with a \<^verbatim>\<open>uint32_t\<close> the
  \<^verbatim>\<open>int\<close> is converted to unsigned; both comparisons are guarded by a test that it is
  not negative, so that the conversion does not change it.
\<close>

definition uampChangeState ::
  "uampClient \<Rightarrow> world \<Rightarrow> int \<Rightarrow> double \<Rightarrow> int \<Rightarrow> ret \<times> uampClient \<times> world" where
  "uampChangeState client w agentID atTime newState =
     (if numStates client = 0 then (Success, client, w)
      else if dless atTime (Finite 0) \<or> dless (Finite UAMP_MAX_TIME) atTime
      then (Failure ERROR_INVALID_CHANGE_TIME, client, w)
      else
        (let sendTime = (word_of_int (llround w (dmul atTime (Finite 1000))) :: u32)
         in if \<not> (agentID \<ge> 0 \<and> agentID < uint (numAgents client))
            then (Aborted, client, w)
            else if sendTime > timeLimit client
            then (Failure ERROR_INVALID_CHANGE_TIME, client, w)
            else if newState < 0 \<or> newState \<ge> uint (numStates client)
            then (Failure ERROR_INVALID_CHANGE_STATE, client, w)
            else addStateChange client w (word_of_int agentID) sendTime (word_of_int newState)))"

section \<open>Example data\<close>

text \<open>A world with a silent server, and a session of three agents with a time limit of 2 s.\<close>

definition example_world :: world where
  "example_world =
     \<lparr>incoming = [], read_fault = False, sent = [], write_room = None, chunk = 0,
      net = Connected 3, is_open = True, alloc_ok = True,
      llround_invalid = - 9223372036854775808\<rparr>"

definition example_client :: "u32 \<Rightarrow> uampClient" where
  "example_client ns =
     \<lparr>fd = 3, commBuf = \<lparr>total = 0, passed = 0, buffer = []\<rparr>, serverFeatures = 0,
      numAgents = 3, timeLimit = 2000, numStates = ns, agents = None,
      largestLastTime = 0, smallestCurrentTime = 0,
      changes = replicate 128 \<lparr>st_agentID = 0, st_time = 0, st_newState = 0\<rparr>,
      numChanges = 0\<rparr>"

section \<open>The update queues (\<^verbatim>\<open>queues.c\<close>)\<close>

text \<open>
  \<^verbatim>\<open>client->agents + i\<close>: the agents of a session as a list, the \<open>i\<close>-th agent, and the
  session with the \<open>i\<close>-th agent replaced. The functions below return \<open>NoReturn\<close> where the
  C code would follow the pointer outside the allocated array or index an agent's
  \<^verbatim>\<open>updates\<close> outside its bounds.
\<close>

definition the_agents :: "uampClient \<Rightarrow> uampAgent list" where
  "the_agents client = (case agents client of None \<Rightarrow> [] | Some as \<Rightarrow> as)"

definition agent_at :: "uampClient \<Rightarrow> nat \<Rightarrow> uampAgent" where
  "agent_at client i = the_agents client ! i"

definition put_agent :: "uampClient \<Rightarrow> nat \<Rightarrow> uampAgent \<Rightarrow> uampClient" where
  "put_agent client i a = client\<lparr>agents := Some ((the_agents client)[i := a])\<rparr>"

definition slot_ok :: "uampAgent \<Rightarrow> int \<Rightarrow> bool" where
  "slot_ok agent i = (0 \<le> i \<and> i < int (length (updates agent)))"

definition slot :: "uampAgent \<Rightarrow> int \<Rightarrow> uampUpdate" where
  "slot agent i = updates agent ! nat i"

definition set_slot :: "uampAgent \<Rightarrow> int \<Rightarrow> uampUpdate \<Rightarrow> uampAgent" where
  "set_slot agent i u = agent\<lparr>updates := (updates agent)[nat i := u]\<rparr>"

definition numToRequest :: "uampClient \<Rightarrow> nat \<Rightarrow> int" where
  "numToRequest client agentID =
     (let agent = agent_at client agentID
      in if receivedFinal agent then 0 else UAMP_UPDATE_QUEUE_SIZE - aliveInQueue agent)"

text \<open>
  \<^verbatim>\<open>receiveReply\<close>, first half: the fields of the reply are read from the socket into
  the slot at \<^verbatim>\<open>recvIndex\<close>, one by one.
\<close>

definition receiveReply_read ::
  "uampClient \<Rightarrow> uampAgent \<Rightarrow> world \<Rightarrow> ret \<times> uampAgent \<times> uampIOBuffer \<times> world" where
  "receiveReply_read client agent w =
     (let i = recvIndex agent
      in case socketRead32 (commBuf client) w (upd_time (slot agent i)) of
           (r1, v1, buf1, w1) \<Rightarrow>
             let a1 = set_slot agent i ((slot agent i)\<lparr>upd_time := v1\<rparr>)
             in if r1 \<noteq> Success then (r1, a1, buf1, w1)
                else (case socketRead32 buf1 w1 (upd_x (slot a1 i)) of
                   (r2, v2, buf2, w2) \<Rightarrow>
                     let a2 = set_slot a1 i ((slot a1 i)\<lparr>upd_x := v2\<rparr>)
                     in if r2 \<noteq> Success then (r2, a2, buf2, w2)
                        else (case socketRead32 buf2 w2 (upd_y (slot a2 i)) of
                           (r3, v3, buf3, w3) \<Rightarrow>
                             let a3 = set_slot a2 i ((slot a2 i)\<lparr>upd_y := v3\<rparr>)
                             in if r3 \<noteq> Success then (r3, a3, buf3, w3)
                                else (case (if serverFeatures client AND UAMP_SUPPORTS_3D \<noteq> 0
                                            then socketRead32 buf3 w3 (upd_z (slot a3 i))
                                            else (Success, 0, buf3, w3)) of
                                   (r4, v4, buf4, w4) \<Rightarrow>
                                     let a4 = set_slot a3 i ((slot a3 i)\<lparr>upd_z := v4\<rparr>)
                                     in if r4 \<noteq> Success then (r4, a4, buf4, w4)
                                        else (case (if serverFeatures client AND
                                                       UAMP_SUPPORTS_ADD_REMOVE \<noteq> 0
                                                    then socketRead8 buf4 w4 (upd_present (slot a4 i))
                                                    else (Success, 0x01, buf4, w4)) of
                                           (r5, v5, buf5, w5) \<Rightarrow>
                                             (r5, set_slot a4 i ((slot a4 i)\<lparr>upd_present := v5\<rparr>),
                                              buf5, w5))))))"

text \<open>
  \<^verbatim>\<open>receiveReply\<close>, second half: the verification of the reply now in the slot at
  \<^verbatim>\<open>recvIndex\<close>, and the advance of the producer cursor. \<^verbatim>\<open>memcmp\<close> over the two
  structures is equality of the records (the padding bytes of the structure come from
  \<^verbatim>\<open>calloc\<close> and are never written).
\<close>

definition receiveReply_verify :: "u32 \<Rightarrow> uampAgent \<Rightarrow> ret \<times> uampAgent" where
  "receiveReply_verify limit agent =
     (let storeReply = slot agent (recvIndex agent)
      in case (if aliveInQueue agent = 0 then
                 (if upd_time storeReply \<noteq> 0 then (Failure ERROR_FIRST_UPDATE_TIME, agent)
                  else (Success, agent))
               else
                 (let previousStore =
                        (if recvIndex agent = 0 then slot agent (UAMP_UPDATE_QUEUE_SIZE - 1)
                         else slot agent (recvIndex agent - 1))
                  in if receivedFinal agent then
                       (if storeReply \<noteq> previousStore
                        then (Failure ERROR_NON_EQUAL_FINAL_UPDATES, agent)
                        else (Success, agent))
                     else
                       (if upd_time storeReply \<le> upd_time previousStore
                        then (Failure ERROR_TIMESTAMP_NOT_INCREMENTED, agent)
                        else if upd_time storeReply > limit
                        then (Failure ERROR_TIMESTAMP_TOO_LARGE, agent)
                        else if upd_time storeReply = limit
                        then (Success, agent\<lparr>receivedFinal := True\<rparr>)
                        else (Success, agent)))) of
           (r, agent1) \<Rightarrow>
             if r \<noteq> Success then (r, agent1)
             else if upd_present storeReply \<noteq> 0x00 \<and> upd_present storeReply \<noteq> 0x01
             then (Failure ERROR_INVALID_PRESENT_FLAG, agent1)
             else (Success,
                   agent1\<lparr>aliveInQueue := aliveInQueue agent1 + 1,
                          recvIndex := (if recvIndex agent1 = UAMP_UPDATE_QUEUE_SIZE - 1 then 0
                                        else recvIndex agent1 + 1)\<rparr>))"

definition receiveReply ::
  "uampClient \<Rightarrow> uampAgent \<Rightarrow> world \<Rightarrow> ret \<times> uampAgent \<times> uampIOBuffer \<times> world" where
  "receiveReply client agent w =
     (if \<not> (slot_ok agent (recvIndex agent) \<and> slot_ok agent (UAMP_UPDATE_QUEUE_SIZE - 1))
      then (NoReturn, agent, commBuf client, w)
      else case receiveReply_read client agent w of
             (r, a1, buf1, w1) \<Rightarrow>
               if r \<noteq> Success then (r, a1, buf1, w1)
               else (case receiveReply_verify (timeLimit client) a1 of
                       (r', a2) \<Rightarrow> (r', a2, buf1, w1)))"

text \<open>The inner \<^verbatim>\<open>for\<close> loops of \<^verbatim>\<open>requestUpdates\<close>, run \<open>n\<close> times.\<close>

fun write_agent_ids :: "nat \<Rightarrow> uampIOBuffer \<Rightarrow> world \<Rightarrow> u32 \<Rightarrow> ret \<times> uampIOBuffer \<times> world" where
  "write_agent_ids 0 buf w v = (Success, buf, w)"
| "write_agent_ids (Suc n) buf w v =
     (case socketWrite32 buf w v of
        (r, buf', w') \<Rightarrow> if r \<noteq> Success then (r, buf', w') else write_agent_ids n buf' w' v)"

fun receive_replies :: "nat \<Rightarrow> uampClient \<Rightarrow> nat \<Rightarrow> world \<Rightarrow> ret \<times> uampClient \<times> world" where
  "receive_replies 0 client onAgent w = (Success, client, w)"
| "receive_replies (Suc n) client onAgent w =
     (case receiveReply client (agent_at client onAgent) w of
        (r, a', buf', w') \<Rightarrow>
          let client' = (put_agent client onAgent a')\<lparr>commBuf := buf'\<rparr>
          in if r \<noteq> Success then (r, client', w') else receive_replies n client' onAgent w')"

text \<open>
  The two \<^verbatim>\<open>while\<close> loops of \<^verbatim>\<open>requestUpdates\<close>. \<open>n\<close> is the number of allocated
  agents, which the loops do not change. \<^verbatim>\<open>onAgent\<close> is an \<^verbatim>\<open>int\<close>: an increment past
  \<open>INT_MAX\<close> is undefined behaviour, \<open>NoReturn\<close> here.
\<close>

function request_write_loop ::
  "uampClient \<Rightarrow> nat \<Rightarrow> uampIOBuffer \<Rightarrow> world \<Rightarrow> nat \<Rightarrow> u32 \<Rightarrow> u32 \<Rightarrow>
   ret \<times> uampIOBuffer \<times> world" where
  "request_write_loop client n buf w onAgent onRequest totalRequests =
     (if int onAgent > INT_MAX then (NoReturn, buf, w)
      else if onRequest < totalRequests then
        (if \<not> onAgent < n then (NoReturn, buf, w)
         else
           (let requestsForAgent = numToRequest client onAgent
            in case write_agent_ids (nat requestsForAgent) buf w (of_nat onAgent) of
                 (r, buf', w') \<Rightarrow>
                   if r \<noteq> Success then (r, buf', w')
                   else request_write_loop client n buf' w' (onAgent + 1)
                          (onRequest + word_of_int requestsForAgent) totalRequests))
      else (Success, buf, w))"
  by pat_completeness auto
termination
  by (relation "measure (\<lambda>(client, n, buf, w, onAgent, onRequest, totalRequests). n - onAgent)")
    auto

declare request_write_loop.simps [simp del]

function request_read_loop ::
  "uampClient \<Rightarrow> nat \<Rightarrow> world \<Rightarrow> nat \<Rightarrow> u32 \<Rightarrow> u32 \<Rightarrow> ret \<times> uampClient \<times> world" where
  "request_read_loop client n w onAgent onRequest totalRequests =
     (if int onAgent > INT_MAX then (NoReturn, client, w)
      else if onRequest < totalRequests then
        (if \<not> onAgent < n then (NoReturn, client, w)
         else
           (let requestsForAgent = numToRequest client onAgent
            in case receive_replies (nat requestsForAgent) client onAgent w of
                 (r, client', w') \<Rightarrow>
                   if r \<noteq> Success then (r, client', w')
                   else request_read_loop client' n w' (onAgent + 1)
                          (onRequest + word_of_int requestsForAgent) totalRequests))
      else (Success, client, w))"
  by pat_completeness auto
termination
  by (relation "measure (\<lambda>(client, n, w, onAgent, onRequest, totalRequests). n - onAgent)")
    auto

declare request_read_loop.simps [simp del]

definition requestUpdates :: "uampClient \<Rightarrow> world \<Rightarrow> nat \<Rightarrow> u32 \<Rightarrow> ret \<times> uampClient \<times> world" where
  "requestUpdates client w startAgent totalRequests =
     (let totalWrite = u64 (5 + 4 * unat totalRequests);
          totalRead0 = (if serverFeatures client AND UAMP_SUPPORTS_3D \<noteq> 0
                        then u64 (16 * unat totalRequests)
                        else u64 (12 * unat totalRequests));
          totalRead = (if serverFeatures client AND UAMP_SUPPORTS_ADD_REMOVE \<noteq> 0
                       then u64 (totalRead0 + unat totalRequests)
                       else totalRead0);
          n = length (the_agents client)
      in case socketWrite8 (beginWrite (commBuf client) totalWrite) w 0x01 of
           (r1, buf1, w1) \<Rightarrow>
             if r1 \<noteq> Success then (r1, client\<lparr>commBuf := buf1\<rparr>, w1)
             else (case socketWrite32 buf1 w1 totalRequests of
                (r2, buf2, w2) \<Rightarrow>
                  if r2 \<noteq> Success then (r2, client\<lparr>commBuf := buf2\<rparr>, w2)
                  else (case request_write_loop client n buf2 w2 startAgent 0 totalRequests of
                     (r3, buf3, w3) \<Rightarrow>
                       if r3 \<noteq> Success then (r3, client\<lparr>commBuf := buf3\<rparr>, w3)
                       else request_read_loop (client\<lparr>commBuf := beginRead buf3 totalRead\<rparr>)
                              n w3 startAgent 0 totalRequests)))"

text \<open>
  The \<^verbatim>\<open>for\<close> loop of \<^verbatim>\<open>fillUpdateQueues\<close>. \<open>n\<close> is \<^verbatim>\<open>client->numAgents\<close>, which
  the loop does not change. The result carries \<^verbatim>\<open>startAgent\<close> and \<^verbatim>\<open>totalRequests\<close> as
  they stand after the loop. The counter \<^verbatim>\<open>onAgent\<close> is an \<^verbatim>\<open>int\<close> compared with the
  unsigned \<^verbatim>\<open>numAgents\<close>: its increment past \<open>INT_MAX\<close> is undefined behaviour.
\<close>

function fill_loop ::
  "uampClient \<Rightarrow> nat \<Rightarrow> world \<Rightarrow> nat \<Rightarrow> nat \<Rightarrow> u32 \<Rightarrow> ret \<times> uampClient \<times> world \<times> nat \<times> u32" where
  "fill_loop client n w onAgent startAgent totalRequests =
     (if int onAgent > INT_MAX then (NoReturn, client, w, startAgent, totalRequests)
      else if onAgent < n then
        (if \<not> onAgent < length (the_agents client)
         then (NoReturn, client, w, startAgent, totalRequests)
         else
           (let requestsForAgent = (word_of_int (numToRequest client onAgent) :: u32);
                sum = totalRequests + requestsForAgent
            in if sum < totalRequests \<or> sum < requestsForAgent then
                 (case requestUpdates client w startAgent totalRequests of
                    (r, client', w') \<Rightarrow>
                      if r \<noteq> Success then (r, client', w', startAgent, totalRequests)
                      else fill_loop client' n w' (onAgent + 1) onAgent requestsForAgent)
               else fill_loop client n w (onAgent + 1) startAgent sum))
      else (Success, client, w, startAgent, totalRequests))"
  by pat_completeness auto
termination
  by (relation "measure (\<lambda>(client, n, w, onAgent, startAgent, totalRequests). n - onAgent)")
    auto

declare fill_loop.simps [simp del]

definition fillUpdateQueues :: "uampClient \<Rightarrow> world \<Rightarrow> ret \<times> uampClient \<times> world" where
  "fillUpdateQueues client w =
     (case fill_loop client (unat (numAgents client)) w 0 0 0 of
        (r, client1, w1, startAgent, totalRequests) \<Rightarrow>
          if r \<noteq> Success then (r, client1, w1)
          else if totalRequests \<noteq> 0 then requestUpdates client1 w1 startAgent totalRequests
          else (Success, client1, w1))"

definition initializeQueues :: "uampClient \<Rightarrow> world \<Rightarrow> ret \<times> uampClient \<times> world" where
  "initializeQueues client w = fillUpdateQueues client w"

text \<open>
  \<^verbatim>\<open>advanceAgent\<close>, \<^verbatim>\<open>getCurrentUpdate\<close> and \<^verbatim>\<open>getPreviousUpdate\<close>. The two getters
  return a pointer in C; here they return the index of the slot, and \<open>slot\<close> reads it.
\<close>

definition agent_ok :: "uampClient \<Rightarrow> int \<Rightarrow> bool" where
  "agent_ok client agentID =
     (0 \<le> agentID \<and> nat agentID < length (the_agents client) \<and>
      slot_ok (agent_at client (nat agentID)) (currentIndex (agent_at client (nat agentID))) \<and>
      slot_ok (agent_at client (nat agentID)) (UAMP_UPDATE_QUEUE_SIZE - 1))"

definition advanceAgent :: "uampClient \<Rightarrow> world \<Rightarrow> int \<Rightarrow> ret \<times> uampClient \<times> world" where
  "advanceAgent client w agentID =
     (if \<not> agent_ok client agentID then (NoReturn, client, w)
      else
        (let agent = agent_at client (nat agentID);
             agent1 = (if upd_time (slot agent (currentIndex agent)) \<noteq> 0
                       then agent\<lparr>aliveInQueue := aliveInQueue agent - 1\<rparr> else agent);
             agent2 = (if currentIndex agent1 = UAMP_UPDATE_QUEUE_SIZE - 1
                       then agent1\<lparr>currentIndex := 0\<rparr>
                       else agent1\<lparr>currentIndex := currentIndex agent1 + 1\<rparr>);
             client1 = put_agent client (nat agentID) agent2
         in if aliveInQueue agent2 = 1 then fillUpdateQueues client1 w
            else (Success, client1, w)))"

definition getCurrentUpdate :: "uampClient \<Rightarrow> int \<Rightarrow> int" where
  "getCurrentUpdate client agentID = currentIndex (agent_at client (nat agentID))"

definition getPreviousUpdate :: "uampClient \<Rightarrow> int \<Rightarrow> int" where
  "getPreviousUpdate client agentID =
     (let agent = agent_at client (nat agentID)
      in if upd_time (slot agent (currentIndex agent)) = 0 then currentIndex agent
         else if currentIndex agent = 0 then UAMP_UPDATE_QUEUE_SIZE - 1
         else currentIndex agent - 1)"

definition update_at :: "uampClient \<Rightarrow> int \<Rightarrow> int \<Rightarrow> uampUpdate" where
  "update_at client agentID i = slot (agent_at client (nat agentID)) i"

section \<open>State names (\<^verbatim>\<open>states.c\<close>)\<close>

text \<open>
  A state name is a C string, here the list of its bytes in front of the terminating zero.
  \<^verbatim>\<open>stateNameLength\<close> counts up to \<open>MAX_NAME_LEN + 1\<close> bytes.
\<close>

definition MAX_NAME_LEN :: nat where
  "MAX_NAME_LEN = 1024"

fun name_length_loop :: "u8 list \<Rightarrow> nat \<Rightarrow> nat" where
  "name_length_loop [] l = l"
| "name_length_loop (ch # s) l = (if l \<le> MAX_NAME_LEN then name_length_loop s (l + 1) else l)"

definition stateNameLength :: "u8 list \<Rightarrow> error + u32" where
  "stateNameLength s =
     (let l = name_length_loop s 0
      in if l = 0 then Inl ERROR_ZERO_STATE_LENGTH
         else if l > MAX_NAME_LEN then Inl ERROR_STATE_LENGTH_LONG
         else Inr (of_nat l))"

text \<open>
  The loops of \<^verbatim>\<open>verifyStates\<close>: \<open>prev\<close> are the names already checked, with their
  lengths. The result is the array of lengths, or the error.
\<close>

fun is_duplicate :: "u8 list \<Rightarrow> u32 \<Rightarrow> (u8 list \<times> u32) list \<Rightarrow> bool" where
  "is_duplicate name len [] = False"
| "is_duplicate name len ((pname, plen) # prev) =
     (if len \<noteq> plen then is_duplicate name len prev
      else if take (unat len) name = take (unat len) pname then True
      else is_duplicate name len prev)"

fun verify_loop :: "(u8 list \<times> u32) list \<Rightarrow> u8 list list \<Rightarrow> error + u32 list" where
  "verify_loop prev [] = Inr (map snd prev)"
| "verify_loop prev (name # rest) =
     (case stateNameLength name of
        Inl e \<Rightarrow> Inl e
      | Inr len \<Rightarrow>
          if is_duplicate name len prev then Inl ERROR_DUPLICATE_STATE
          else verify_loop (prev @ [(name, len)]) rest)"

text \<open>
  \<^verbatim>\<open>verifyStates\<close>. The array \<open>stateNames\<close> must hold \<open>numStates'\<close> names; the model
  checks the first \<open>numStates'\<close> names of the list.
\<close>

definition verifyStates :: "world \<Rightarrow> u8 list list \<Rightarrow> int \<Rightarrow> ret \<times> u32 list option" where
  "verifyStates w stateNames numStates' =
     (if numStates' \<le> 0 \<or> numStates' > 4294967295 then (Failure ERROR_INVALID_NUMBER_STATES, None)
      else if \<not> alloc_ok w then (Failure ERROR_OUT_OF_MEMORY, None)
      else if nat numStates' > length stateNames then (NoReturn, None)
      else case verify_loop [] (take (nat numStates') stateNames) of
             Inl e \<Rightarrow> (Failure e, None)
           | Inr lens \<Rightarrow> (Success, Some lens))"

fun write_lengths :: "uampIOBuffer \<Rightarrow> world \<Rightarrow> u32 list \<Rightarrow> ret \<times> uampIOBuffer \<times> world" where
  "write_lengths buf w [] = (Success, buf, w)"
| "write_lengths buf w (l # ls) =
     (case socketWrite32 buf w l of
        (r, buf', w') \<Rightarrow> if r \<noteq> Success then (r, buf', w') else write_lengths buf' w' ls)"

fun write_names :: "uampIOBuffer \<Rightarrow> world \<Rightarrow> (u8 list \<times> u32) list \<Rightarrow> ret \<times> uampIOBuffer \<times> world" where
  "write_names buf w [] = (Success, buf, w)"
| "write_names buf w ((name, l) # rest) =
     (case socketWriteRaw buf w (take (unat l) name) of
        (r, buf', w') \<Rightarrow> if r \<noteq> Success then (r, buf', w') else write_names buf' w' rest)"

definition writeStates ::
  "uampClient \<Rightarrow> world \<Rightarrow> u8 list list \<Rightarrow> int \<Rightarrow> u32 list \<Rightarrow> ret \<times> uampClient \<times> world" where
  "writeStates client w stateNames numStates' nameLengths =
     (let k = nat numStates';
          lens = take k nameLengths;
          totalLen = u64 (4 + 4 * nat (numStates' mod 2 ^ 64) + sum_list (map unat lens))
      in case socketWrite32 (beginWrite (commBuf client) totalLen) w (word_of_int numStates') of
           (r1, buf1, w1) \<Rightarrow>
             if r1 \<noteq> Success then (r1, client\<lparr>commBuf := buf1\<rparr>, w1)
             else (case write_lengths buf1 w1 lens of
                (r2, buf2, w2) \<Rightarrow>
                  if r2 \<noteq> Success then (r2, client\<lparr>commBuf := buf2\<rparr>, w2)
                  else (case write_names buf2 w2 (zip (take k stateNames) lens) of
                     (r3, buf3, w3) \<Rightarrow> (r3, client\<lparr>commBuf := buf3\<rparr>, w3))))"

section \<open>Connecting and terminating (\<^verbatim>\<open>uampClient.c\<close>)\<close>

definition SUPPORTED_VERSION :: u8 where
  "SUPPORTED_VERSION = 0x80"

definition tag_UAMP :: "u8 list" where
  "tag_UAMP = [0x55, 0x41, 0x4D, 0x50]"

definition tag_MVIS :: "u8 list" where
  "tag_MVIS = [0x4D, 0x56, 0x49, 0x53]"

definition uampInitialize :: "uampClient \<Rightarrow> uampClient" where
  "uampInitialize client = client\<lparr>fd := - 1, agents := None, numChanges := 0\<rparr>"

text \<open>
  \<^verbatim>\<open>performHandshake\<close> up to the label \<^verbatim>\<open>isErr\<close>. The second component of the
  result is the local flag \<^verbatim>\<open>sendReject\<close>.
\<close>

definition handshake_body ::
  "uampClient \<Rightarrow> world \<Rightarrow> bool \<Rightarrow> u32 \<Rightarrow> ret \<times> bool \<times> uampClient \<times> world" where
  "handshake_body client w isUAMP supportedFeatures =
     (if NOT (UAMP_SUPPORTS_3D OR UAMP_SUPPORTS_ADD_REMOVE) AND supportedFeatures \<noteq> 0
      then (Failure ERROR_INVALID_FEATURES, False, client, w)
      else case socketWriteRaw (beginWrite (commBuf client) 9) w
                  (if isUAMP then tag_UAMP else tag_MVIS) of
        (r1, buf1, w1) \<Rightarrow>
        if r1 \<noteq> Success then (r1, False, client\<lparr>commBuf := buf1\<rparr>, w1)
        else case socketWrite8 buf1 w1 SUPPORTED_VERSION of
        (r2, buf2, w2) \<Rightarrow>
        if r2 \<noteq> Success then (r2, False, client\<lparr>commBuf := buf2\<rparr>, w2)
        else case socketWrite32 buf2 w2 supportedFeatures of
        (r3, buf3, w3) \<Rightarrow>
        if r3 \<noteq> Success then (r3, False, client\<lparr>commBuf := buf3\<rparr>, w3)
        else case socketReadRaw (beginRead buf3 9) w3 4 of
        (r4, ident, buf4, w4) \<Rightarrow>
        if r4 \<noteq> Success then (r4, False, client\<lparr>commBuf := buf4\<rparr>, w4)
        else case socketRead8 buf4 w4 0 of
        (r5, ver, buf5, w5) \<Rightarrow>
        if r5 \<noteq> Success then (r5, False, client\<lparr>commBuf := buf5\<rparr>, w5)
        else case socketRead32 buf5 w5 (serverFeatures client) of
        (r6, feats, buf6, w6) \<Rightarrow>
        let client1 = client\<lparr>commBuf := buf6, serverFeatures := feats\<rparr>
        in if r6 \<noteq> Success then (r6, False, client1, w6)
        else if isUAMP \<and> ident = tag_MVIS
        then (Failure ERROR_UAMP_CLIENT_MVISP_SERVER, True, client1, w6)
        else if isUAMP \<and> ident \<noteq> tag_UAMP
        then (Failure ERROR_SERVER_UNKNOWN_HANDSHAKE, True, client1, w6)
        else if \<not> isUAMP \<and> ident = tag_UAMP
        then (Failure ERROR_MVISP_CLIENT_UAMP_SERVER, True, client1, w6)
        else if \<not> isUAMP \<and> ident \<noteq> tag_MVIS
        then (Failure ERROR_SERVER_UNKNOWN_HANDSHAKE, True, client1, w6)
        else if ver AND SUPPORTED_VERSION = 0
        then (Failure ERROR_NO_SHARED_VERSION, True, client1, w6)
        else if serverFeatures client1 AND UAMP_SUPPORTS_3D \<noteq> 0 \<and>
                supportedFeatures AND UAMP_SUPPORTS_3D = 0
        then (Failure ERROR_2D_CLIENT_3D_SERVER, True, client1, w6)
        else if serverFeatures client1 AND UAMP_SUPPORTS_ADD_REMOVE \<noteq> 0 \<and>
                supportedFeatures AND UAMP_SUPPORTS_ADD_REMOVE = 0
        then (Failure ERROR_ADD_REMOVE_UNSUPPORTED, True, client1, w6)
        else case socketWrite w6 [SUPPORTED_VERSION] of
        (r7, w7) \<Rightarrow>
        if r7 \<noteq> Success then (r7, False, client1, w7)
        else case socketRead w7 1 of
        (r8, bs, w8) \<Rightarrow>
        if r8 \<noteq> Success then (r8, False, client1, w8)
        else if hd bs = 0 then (Failure ERROR_SERVER_REJECTED_HANDSHAKE, False, client1, w8)
        else if hd bs \<noteq> SUPPORTED_VERSION
        then (Failure ERROR_SERVER_CLIENT_VERSION_DISAGREE, False, client1, w8)
        else (Success, False, client1, w8))"

text \<open>
  \<^verbatim>\<open>performHandshake\<close>: after the label, the reject byte is written when
  \<^verbatim>\<open>sendReject\<close> is set, and the result of that write is dropped.
\<close>

definition performHandshake ::
  "uampClient \<Rightarrow> world \<Rightarrow> bool \<Rightarrow> u32 \<Rightarrow> ret \<times> uampClient \<times> world" where
  "performHandshake client w isUAMP supportedFeatures =
     (case handshake_body client w isUAMP supportedFeatures of
        (wasErr, sendReject, client1, w1) \<Rightarrow>
          if sendReject then (wasErr, client1, snd (socketWrite w1 [0x00]))
          else (wasErr, client1, w1))"

text \<open>Memory from \<^verbatim>\<open>calloc\<close>: all bytes zero.\<close>

definition calloc_update :: uampUpdate where
  "calloc_update = \<lparr>upd_time = 0, upd_x = 0, upd_y = 0, upd_z = 0, upd_present = 0\<rparr>"

definition calloc_agent :: uampAgent where
  "calloc_agent =
     \<lparr>updates = replicate (nat UAMP_UPDATE_QUEUE_SIZE) calloc_update, currentIndex = 0,
      aliveInQueue = 0, recvIndex = 0, receivedFinal = False\<rparr>"

text \<open>The clean-up after the label \<^verbatim>\<open>isErr\<close> of the two connect functions.\<close>

definition connect_cleanup :: "ret \<times> uampClient \<times> world \<Rightarrow> ret \<times> uampClient \<times> world" where
  "connect_cleanup res =
     (case res of
        (wasErr, client, w) \<Rightarrow>
          if is_failure wasErr
          then (wasErr, client\<lparr>fd := - 1, agents := None\<rparr>,
                if fd client \<ge> 0 then os_close w else w)
          else (wasErr, client, w))"

definition uampConnect_body ::
  "uampClient \<Rightarrow> world \<Rightarrow> nat \<Rightarrow> int \<Rightarrow> double \<Rightarrow> int \<Rightarrow> u32 \<Rightarrow> ret \<times> uampClient \<times> world" where
  "uampConnect_body client w port numAgents' timeLimit' seed supportedFeatures =
     (let client0 = uampInitialize client
      in if numAgents' \<le> 0 \<or> numAgents' > 4294967295
         then (Failure ERROR_INVALID_NUM_AGENTS, client0, w)
         else if dless timeLimit' (Finite 0) \<or> dless (Finite UAMP_MAX_TIME) timeLimit'
         then (Failure ERROR_INVALID_TIME_LIMIT, client0, w)
         else if \<not> alloc_ok w then (Failure ERROR_OUT_OF_MEMORY, client0, w)
         else
           (let client1 = client0\<lparr>agents := Some (replicate (nat numAgents') calloc_agent),
                                  numAgents := word_of_int numAgents',
                                  timeLimit :=
                                    word_of_int (llround w (dmul timeLimit' (Finite 1000))),
                                  numStates := 0\<rparr>
            in case callSocket w port of
            (Inl e, w1) \<Rightarrow> (Failure e, client1\<lparr>fd := error_code e\<rparr>, w1)
          | (Inr d, w1) \<Rightarrow>
            let client2 = client1\<lparr>fd := d\<rparr>
            in case performHandshake client2 w1 True supportedFeatures of
            (r2, client3, w2) \<Rightarrow>
            if r2 \<noteq> Success then (r2, client3, w2)
            else case socketWrite32 (beginWrite (commBuf client3) 12) w2 (numAgents client3) of
            (r3, buf3, w3) \<Rightarrow>
            if r3 \<noteq> Success then (r3, client3\<lparr>commBuf := buf3\<rparr>, w3)
            else case socketWrite32 buf3 w3 (timeLimit client3) of
            (r4, buf4, w4) \<Rightarrow>
            if r4 \<noteq> Success then (r4, client3\<lparr>commBuf := buf4\<rparr>, w4)
            else case socketWrite32 buf4 w4 (word_of_int seed) of
            (r5, buf5, w5) \<Rightarrow>
            let client4 = client3\<lparr>commBuf := buf5\<rparr>
            in if r5 \<noteq> Success then (r5, client4, w5)
            else case socketRead w5 1 of
            (r6, bs, w6) \<Rightarrow>
            if r6 \<noteq> Success then (r6, client4, w6)
            else if hd bs = 0x01 then (Failure ERROR_SIMULATION_DENIED, client4, w6)
            else if hd bs \<noteq> 0x00 then (Failure ERROR_SIMULATION_RESPONSE_BAD, client4, w6)
            else initializeQueues
                   (client4\<lparr>largestLastTime := 0, smallestCurrentTime := 0\<rparr>) w6))"

definition uampConnect ::
  "uampClient \<Rightarrow> world \<Rightarrow> nat \<Rightarrow> int \<Rightarrow> double \<Rightarrow> int \<Rightarrow> u32 \<Rightarrow> ret \<times> uampClient \<times> world" where
  "uampConnect client w port numAgents' timeLimit' seed supportedFeatures =
     connect_cleanup (uampConnect_body client w port numAgents' timeLimit' seed supportedFeatures)"

text \<open>
  \<^verbatim>\<open>mvispConnect\<close>. The memory of the caller is a value \<open>u\<close> of any type. A non-null
  pointer \<^verbatim>\<open>numAgents\<close> or \<^verbatim>\<open>timeLimit\<close> is the function that stores a value into that
  memory, and a non-null \<^verbatim>\<open>acceptFunc\<close> reads and changes the memory when it is called.
  The conversion \<^verbatim>\<open>(int)naInput\<close> is the two's complement reading \<open>sint\<close>.
\<close>


definition mvispConnect_body ::
  "uampClient \<Rightarrow> world \<Rightarrow> 'u \<Rightarrow> nat \<Rightarrow> (int \<Rightarrow> 'u \<Rightarrow> 'u) option \<Rightarrow> (real \<Rightarrow> 'u \<Rightarrow> 'u) option \<Rightarrow>
   u8 list list \<Rightarrow> int \<Rightarrow> ('u \<Rightarrow> int \<Rightarrow> real \<Rightarrow> int \<times> 'u) option \<Rightarrow> u32 \<Rightarrow>
   (ret \<times> uampClient \<times> world) \<times> 'u" where
  "mvispConnect_body client w u port numAgents_ptr timeLimit_ptr stateNames numStates'
       acceptFunc supportedFeatures =
     (let client0 = uampInitialize client
      in case verifyStates w stateNames numStates' of
      (r0, nameLengths) \<Rightarrow>
      if r0 \<noteq> Success then ((r0, client0, w), u)
      else case callSocket w port of
        (Inl e, w1) \<Rightarrow> ((Failure e, client0\<lparr>fd := error_code e\<rparr>, w1), u)
      | (Inr d, w1) \<Rightarrow>
        let client1 = client0\<lparr>fd := d\<rparr>
        in case performHandshake client1 w1 False supportedFeatures of
        (r2, client2, w2) \<Rightarrow>
        if r2 \<noteq> Success then ((r2, client2, w2), u)
        else case socketRead32 (beginRead (commBuf client2) 8) w2 0 of
        (r3, naInput, buf3, w3) \<Rightarrow>
        if r3 \<noteq> Success then ((r3, client2\<lparr>commBuf := buf3\<rparr>, w3), u)
        else case socketRead32 buf3 w3 0 of
        (r4, tlInput, buf4, w4) \<Rightarrow>
        let client3 = client2\<lparr>commBuf := buf4\<rparr>
        in if r4 \<noteq> Success then ((r4, client3, w4), u)
        else if naInput = 0 then ((Failure ERROR_MVISP_NO_AGENTS, client3, w4), u)
        else
          (let na = sint naInput;
               tl = real (unat tlInput) / 1000;
               u1 = (case numAgents_ptr of None \<Rightarrow> u | Some store \<Rightarrow> store na u);
               u2 = (case timeLimit_ptr of None \<Rightarrow> u1 | Some store \<Rightarrow> store tl u1);
               (denied, u3) =
                 (if uint naInput > INT_MAX then (True, u2)
                  else case acceptFunc of
                         None \<Rightarrow> (False, u2)
                       | Some f \<Rightarrow> (case f u2 na tl of (v, u') \<Rightarrow> (v \<noteq> 0, u')))
           in if denied then
                (case socketWrite32 (beginWrite (commBuf client3) 4) w4 0 of
                   (r5, buf5, w5) \<Rightarrow>
                     if r5 \<noteq> Success then ((r5, client3\<lparr>commBuf := buf5\<rparr>, w5), u3)
                     else ((Failure ERROR_SIMULATION_DENIED, client3\<lparr>commBuf := buf5\<rparr>, w5), u3))
              else if \<not> alloc_ok w4 then ((Failure ERROR_OUT_OF_MEMORY, client3, w4), u3)
              else
                (let client4 = client3\<lparr>agents := Some (replicate (nat na) calloc_agent),
                                       numAgents := naInput, timeLimit := tlInput,
                                       numStates := word_of_int numStates'\<rparr>
                 in case writeStates client4 w4 stateNames numStates'
                           (case nameLengths of None \<Rightarrow> [] | Some ls \<Rightarrow> ls) of
                      (r6, client5, w6) \<Rightarrow>
                        if r6 \<noteq> Success then ((r6, client5, w6), u3)
                        else (initializeQueues
                                (client5\<lparr>largestLastTime := 0, smallestCurrentTime := 0\<rparr>) w6,
                              u3))))"

definition mvispConnect ::
  "uampClient \<Rightarrow> world \<Rightarrow> 'u \<Rightarrow> nat \<Rightarrow> (int \<Rightarrow> 'u \<Rightarrow> 'u) option \<Rightarrow> (real \<Rightarrow> 'u \<Rightarrow> 'u) option \<Rightarrow>
   u8 list list \<Rightarrow> int \<Rightarrow> ('u \<Rightarrow> int \<Rightarrow> real \<Rightarrow> int \<times> 'u) option \<Rightarrow> u32 \<Rightarrow>
   (ret \<times> uampClient \<times> world) \<times> 'u" where
  "mvispConnect client w u port numAgents_ptr timeLimit_ptr stateNames numStates'
       acceptFunc supportedFeatures =
     (case mvispConnect_body client w u port numAgents_ptr timeLimit_ptr stateNames numStates'
             acceptFunc supportedFeatures of
        (res, u') \<Rightarrow> (connect_cleanup res, u'))"

text \<open>\<^verbatim>\<open>uampTerminate\<close>: the part in front of the label \<^verbatim>\<open>isErr\<close>, then the release.\<close>

definition uampTerminate_body :: "uampClient \<Rightarrow> world \<Rightarrow> ret \<times> uampClient \<times> world" where
  "uampTerminate_body client w =
     (if fd client \<ge> 0 then
        (case (if numChanges client \<noteq> 0 then flushStateChanges client w
               else (Success, client, w)) of
           (r1, client1, w1) \<Rightarrow>
             if r1 \<noteq> Success then (r1, client1, w1)
             else (case socketWrite8 (beginWrite (commBuf client1) 5) w1 0x00 of
                (r2, buf2, w2) \<Rightarrow>
                  if r2 \<noteq> Success then (r2, client1\<lparr>commBuf := buf2\<rparr>, w2)
                  else (case socketWrite32 buf2 w2 0 of
                     (r3, buf3, w3) \<Rightarrow> (r3, client1\<lparr>commBuf := buf3\<rparr>, w3))))
      else (Success, client, w))"

definition uampTerminate :: "uampClient \<Rightarrow> world \<Rightarrow> ret \<times> uampClient \<times> world" where
  "uampTerminate client w =
     (case uampTerminate_body client w of
        (wasErr, client1, w1) \<Rightarrow>
          if wasErr = Aborted \<or> wasErr = NoReturn then (wasErr, client1, w1)
          else if fd client1 \<ge> 0
          then (wasErr, client1\<lparr>fd := - 1, agents := None\<rparr>, os_close w1)
          else (wasErr, client1\<lparr>agents := None\<rparr>, w1))"

section \<open>Commands and the time cursors (\<^verbatim>\<open>uampClient.c\<close>)\<close>

record uampCommand =
  cmd_agentID :: int
  fromX :: real
  fromY :: real
  fromZ :: real
  fromTime :: real
  toX :: real
  toY :: real
  toZ :: real
  toTime :: real
  cmd_present :: int

text \<open>The conversion \<^verbatim>\<open>(double)\<close> of a 32-bit unsigned value.\<close>

definition dbl :: "u32 \<Rightarrow> real" where
  "dbl v = real (unat v)"

text \<open>The conversion of a \<^verbatim>\<open>uint32_t\<close> loop counter to \<^verbatim>\<open>int\<close>.\<close>

definition int_of_index :: "nat \<Rightarrow> int" where
  "int_of_index i = sint (of_nat i :: u32)"

text \<open>
  \<^verbatim>\<open>uampCurrentCommand\<close> and \<^verbatim>\<open>uampIsMore\<close> return no error code; \<open>None\<close> is the
  failed assertion on the agent id.
\<close>

definition uampCurrentCommand :: "uampClient \<Rightarrow> int \<Rightarrow> uampCommand option" where
  "uampCurrentCommand client agentID =
     (if \<not> (agentID \<ge> 0 \<and> agentID < uint (numAgents client)) then None
      else
        (let last = update_at client agentID (getPreviousUpdate client agentID);
             current = update_at client agentID (getCurrentUpdate client agentID)
         in Some \<lparr>cmd_agentID = agentID,
                  fromX = dbl (upd_x last) / 1000, fromY = dbl (upd_y last) / 1000,
                  fromZ = dbl (upd_z last) / 1000, fromTime = dbl (upd_time last) / 1000,
                  toX = dbl (upd_x current) / 1000, toY = dbl (upd_y current) / 1000,
                  toZ = dbl (upd_z current) / 1000, toTime = dbl (upd_time current) / 1000,
                  cmd_present = uint (upd_present last)\<rparr>))"

text \<open>
  \<^verbatim>\<open>uampIntersectCommand\<close>. \<open>command\<close> is the structure behind the pointer before the
  call; it is returned unchanged when the call fails. A division by \<open>deltaT = 0\<close> would
  give an infinity or a NaN in C and gives 0 here.
\<close>

definition uampIntersectCommand ::
  "uampClient \<Rightarrow> int \<Rightarrow> uampCommand \<Rightarrow> ret \<times> uampCommand" where
  "uampIntersectCommand client agentID command =
     (if \<not> (agentID \<ge> 0 \<and> agentID < uint (numAgents client)) then (Aborted, command)
      else if largestLastTime client > smallestCurrentTime client
      then (Failure ERROR_NO_INTERSECTION, command)
      else if \<not> agent_ok client agentID then (NoReturn, command)
      else
        (let last = update_at client agentID (getPreviousUpdate client agentID);
             current = update_at client agentID (getCurrentUpdate client agentID)
         in if upd_time current = 0 then
              (Success,
               \<lparr>cmd_agentID = agentID,
                fromX = dbl (upd_x current) / 1000, fromY = dbl (upd_y current) / 1000,
                fromZ = dbl (upd_z current) / 1000, fromTime = 0,
                toX = dbl (upd_x current) / 1000, toY = dbl (upd_y current) / 1000,
                toZ = dbl (upd_z current) / 1000, toTime = 0,
                cmd_present = uint (upd_present current)\<rparr>)
            else
              (let deltaX = dbl (upd_x current) - dbl (upd_x last);
                   deltaY = dbl (upd_y current) - dbl (upd_y last);
                   deltaZ = dbl (upd_z current) - dbl (upd_z last);
                   deltaT = dbl (upd_time current) - dbl (upd_time last);
                   frac1 = (dbl (largestLastTime client) - dbl (upd_time last)) / deltaT;
                   frac2 = (dbl (smallestCurrentTime client) - dbl (upd_time last)) / deltaT
               in (Success,
                   \<lparr>cmd_agentID = agentID,
                    fromX = (dbl (upd_x last) + frac1 * deltaX) / 1000,
                    fromY = (dbl (upd_y last) + frac1 * deltaY) / 1000,
                    fromZ = (dbl (upd_z last) + frac1 * deltaZ) / 1000,
                    fromTime = dbl (largestLastTime client) / 1000,
                    toX = (dbl (upd_x last) + frac2 * deltaX) / 1000,
                    toY = (dbl (upd_y last) + frac2 * deltaY) / 1000,
                    toZ = (dbl (upd_z last) + frac2 * deltaZ) / 1000,
                    toTime = dbl (smallestCurrentTime client) / 1000,
                    cmd_present = uint (upd_present last)\<rparr>))))"

definition uampIsMore :: "uampClient \<Rightarrow> int \<Rightarrow> int option" where
  "uampIsMore client agentID =
     (if \<not> (agentID \<ge> 0 \<and> agentID < uint (numAgents client)) then None
      else if upd_time (update_at client agentID (getCurrentUpdate client agentID))
                < timeLimit client
      then Some 1 else Some 0)"

text \<open>
  The loop of \<^verbatim>\<open>uampAdvance\<close> that finds the smallest current time; \<open>None\<close> where it
  would read outside the agents.
\<close>

function smallest_loop :: "uampClient \<Rightarrow> nat \<Rightarrow> nat \<Rightarrow> u32 \<Rightarrow> u32 option" where
  "smallest_loop client n i limit =
     (if i < n then
        (if \<not> agent_ok client (int_of_index i) then None
         else
           (let t = upd_time (update_at client (int_of_index i)
                                (getCurrentUpdate client (int_of_index i)))
            in smallest_loop client n (i + 1) (if t < limit then t else limit)))
      else Some limit)"
  by pat_completeness auto
termination
  by (relation "measure (\<lambda>(client, n, i, limit). n - i)") auto

declare smallest_loop.simps [simp del]

text \<open>
  \<^verbatim>\<open>uampAdvance\<close>. The pointer \<^verbatim>\<open>update\<close> is taken before \<^verbatim>\<open>advanceAgent\<close> and read
  after it: the model keeps the index of the slot and reads the slot in the new state.
\<close>

definition uampAdvance :: "uampClient \<Rightarrow> world \<Rightarrow> int \<Rightarrow> ret \<times> uampClient \<times> world" where
  "uampAdvance client w agentID =
     (if \<not> (agentID \<ge> 0 \<and> agentID < uint (numAgents client)) then (Aborted, client, w)
      else if \<not> agent_ok client agentID then (NoReturn, client, w)
      else
        (let update = getCurrentUpdate client agentID
         in if upd_time (update_at client agentID update) = timeLimit client
            then (Failure ERROR_NO_MORE_DATA, client, w)
            else case advanceAgent client w agentID of
              (r, client1, w1) \<Rightarrow>
                if r \<noteq> Success then (r, client1, w1)
                else
                  (let t = upd_time (update_at client1 agentID update);
                       client2 = (if t > largestLastTime client1
                                  then client1\<lparr>largestLastTime := t\<rparr> else client1)
                   in if t = smallestCurrentTime client2 then
                        (case smallest_loop client2 (unat (numAgents client2)) 0 0xFFFFFFFF of
                           None \<Rightarrow> (NoReturn, client2, w1)
                         | Some limit \<Rightarrow> (Success, client2\<lparr>smallestCurrentTime := limit\<rparr>, w1))
                      else (Success, client2, w1))))"

definition uampIsAnyMore :: "uampClient \<Rightarrow> int" where
  "uampIsAnyMore client = (if smallestCurrentTime client < timeLimit client then 1 else 0)"

text \<open>
  The loop of \<^verbatim>\<open>uampAdvanceOldest\<close>. \<open>n\<close> is \<^verbatim>\<open>client->numAgents\<close>, which the loop
  does not change.
\<close>

function advance_oldest_loop ::
  "uampClient \<Rightarrow> nat \<Rightarrow> world \<Rightarrow> nat \<Rightarrow> u32 \<Rightarrow> ret \<times> uampClient \<times> world" where
  "advance_oldest_loop client n w i oldest =
     (if i < n then
        (if \<not> agent_ok client (int_of_index i) then (NoReturn, client, w)
         else if upd_time (update_at client (int_of_index i)
                             (getCurrentUpdate client (int_of_index i))) = oldest
         then (case uampAdvance client w (int_of_index i) of
                 (r, client', w') \<Rightarrow>
                   if r \<noteq> Success then (r, client', w')
                   else advance_oldest_loop client' n w' (i + 1) oldest)
         else advance_oldest_loop client n w (i + 1) oldest)
      else (Success, client, w))"
  by pat_completeness auto
termination
  by (relation "measure (\<lambda>(client, n, w, i, oldest). n - i)") auto

declare advance_oldest_loop.simps [simp del]

definition uampAdvanceOldest :: "uampClient \<Rightarrow> world \<Rightarrow> ret \<times> uampClient \<times> world" where
  "uampAdvanceOldest client w =
     (let oldest = smallestCurrentTime client
      in if oldest = timeLimit client then (Failure ERROR_NO_MORE_DATA, client, w)
         else advance_oldest_loop client (unat (numAgents client)) w 0 oldest)"

section \<open>Sessions\<close>

text \<open>
  A connected session is what a successful \<^verbatim>\<open>uampConnect\<close> or \<^verbatim>\<open>mvispConnect\<close>
  returns. The reachable states of a session are those that successful calls of
  \<^verbatim>\<open>uampAdvance\<close>, \<^verbatim>\<open>uampAdvanceOldest\<close> and \<^verbatim>\<open>uampChangeState\<close> lead to.
\<close>

inductive connected :: "uampClient \<Rightarrow> world \<Rightarrow> bool" where
  by_uampConnect:
    "uampConnect c0 w0 port na secs seed feats = (Success, c, w) \<Longrightarrow> connected c w"
| by_mvispConnect:
    "mvispConnect c0 w0 (u :: unit) port np tp names ns accept feats = ((Success, c, w), u')
     \<Longrightarrow> connected c w"

inductive steps :: "uampClient \<times> world \<Rightarrow> uampClient \<times> world \<Rightarrow> bool" where
  no_step: "steps s s"
| advance_step:
    "steps s (c, w) \<Longrightarrow> uampAdvance c w a = (Success, c', w') \<Longrightarrow> steps s (c', w')"
| advance_oldest_step:
    "steps s (c, w) \<Longrightarrow> uampAdvanceOldest c w = (Success, c', w') \<Longrightarrow> steps s (c', w')"
| change_state_step:
    "steps s (c, w) \<Longrightarrow> uampChangeState c w a t v = (Success, c', w') \<Longrightarrow> steps s (c', w')"

definition reachable :: "uampClient \<Rightarrow> world \<Rightarrow> bool" where
  "reachable c w = (\<exists>c0 w0. connected c0 w0 \<and> steps (c0, w0) (c, w))"

text \<open>The current update time of every agent of a session.\<close>

definition current_time :: "uampAgent \<Rightarrow> u32" where
  "current_time a = upd_time (slot a (currentIndex a))"

definition current_times :: "uampClient \<Rightarrow> u32 list" where
  "current_times c = map current_time (the_agents c)"

text \<open>The successor and the predecessor of an index in the ring of updates.\<close>

definition ring_next :: "int \<Rightarrow> int" where
  "ring_next i = (if i = UAMP_UPDATE_QUEUE_SIZE - 1 then 0 else i + 1)"

definition ring_prev :: "int \<Rightarrow> int" where
  "ring_prev i = (if i = 0 then UAMP_UPDATE_QUEUE_SIZE - 1 else i - 1)"

text \<open>A session about to read one reply of 12 bytes, and a world that sends it.\<close>

definition example_reply_client :: uampClient where
  "example_reply_client = (example_client 0)\<lparr>commBuf := \<lparr>total = 12, passed = 0, buffer = []\<rparr>\<rparr>"

definition example_reply_world :: world where
  "example_reply_world = example_world\<lparr>incoming := [0, 0, 0, 0, 0, 0, 3, 232, 0, 0, 0, 7]\<rparr>"

definition example_reply :: uampUpdate where
  "example_reply = \<lparr>upd_time = 0, upd_x = 1000, upd_y = 7, upd_z = 0, upd_present = 1\<rparr>"

text \<open>A world whose server answers the handshake with the role tag of MVISP.\<close>

definition example_handshake_world :: "nat option \<Rightarrow> world" where
  "example_handshake_world room =
     example_world\<lparr>incoming := tag_MVIS @ [0x80, 0, 0, 0, 0], write_room := room\<rparr>"

text \<open>A server that answers a UAMP hello with the role tag \<open>UAMP\<close> and the given bytes.\<close>

definition example_feature_world :: "u8 list \<Rightarrow> world" where
  "example_feature_world bs = example_world\<lparr>incoming := tag_UAMP @ bs\<rparr>"






section \<open>Frames on the wire\<close>

text \<open>
  The bytes of a state-change message for the buffered changes of a session (opcode
  \<open>0x02\<close>, the count, three 32-bit values per change) and of the termination message
  (opcode \<open>0x00\<close> and a 32-bit zero).
\<close>

definition change_bytes :: "uampState \<Rightarrow> u8 list" where
  "change_bytes ch = be32 (st_agentID ch) @ be32 (st_time ch) @ be32 (st_newState ch)"

definition state_change_frame :: "uampClient \<Rightarrow> u8 list" where
  "state_change_frame c =
     [0x02] @ be32 (word_of_int (numChanges c)) @
     concat (map change_bytes (take (nat (numChanges c)) (changes c)))"

definition terminate_frame :: "u8 list" where
  "terminate_frame = [0x00] @ be32 0"


text \<open>A session with one buffered state change: agent 1, 500 ms, state 1.\<close>

definition example_pending_client :: uampClient where
  "example_pending_client =
     (example_client 2)\<lparr>changes := (changes (example_client 2))[0 :=
          \<lparr>st_agentID = 1, st_time = 500, st_newState = 1\<rparr>], numChanges := 1,
        agents := Some [calloc_agent]\<rparr>"

text \<open>
  The \<^verbatim>\<open>double\<close> nearest to 0.0045, which is a little below it, and a session whose buffer
  of state changes has one free slot left.
\<close>

definition example_time :: real where
  "example_time = 5188146770730811 / 1152921504606846976"

definition example_full_client :: uampClient where
  "example_full_client = (example_client 2)\<lparr>numChanges := 127\<rparr>"

section \<open>The invariant of an update queue\<close>

text \<open>
  The alive updates of an agent are the \<open>aliveInQueue\<close> slots that end in front of
  \<open>recvIndex\<close>, in ring order: \<open>window_slot a k\<close> is the index of the \<open>k\<close>-th of them and
  \<open>window_upd a k\<close> its content. \<open>position a\<close> is the place of the current update among
  them. \<open>follows\<close> is the relation that \<^verbatim>\<open>receiveReply\<close> checks between a reply and the
  one before it.
\<close>

definition window_slot :: "uampAgent \<Rightarrow> int \<Rightarrow> int" where
  "window_slot a k = (recvIndex a - aliveInQueue a + k) mod UAMP_UPDATE_QUEUE_SIZE"

definition window_upd :: "uampAgent \<Rightarrow> int \<Rightarrow> uampUpdate" where
  "window_upd a k = slot a (window_slot a k)"

definition position :: "uampAgent \<Rightarrow> int" where
  "position a = (currentIndex a - recvIndex a + aliveInQueue a) mod UAMP_UPDATE_QUEUE_SIZE"

definition follows :: "u32 \<Rightarrow> uampUpdate \<Rightarrow> uampUpdate \<Rightarrow> bool" where
  "follows limit u v =
     (upd_time u < upd_time v \<and> upd_time v \<le> limit \<or> upd_time u = limit \<and> v = u)"

text \<open>
  The invariant: the indices and the count are in range; consecutive alive updates follow
  each other; once the final update has been received it is the last alive one, behind at
  least one other; two alive updates mean a time limit above 0; and the current update is
  the first alive one, with time 0 (the agent has not advanced), or the second one, behind
  a previous update of a smaller time that is not the limit.
\<close>

definition queue_inv :: "u32 \<Rightarrow> uampAgent \<Rightarrow> bool" where
  "queue_inv limit a \<longleftrightarrow>
     int (length (updates a)) = UAMP_UPDATE_QUEUE_SIZE \<and>
     0 \<le> currentIndex a \<and> currentIndex a < UAMP_UPDATE_QUEUE_SIZE \<and>
     0 \<le> recvIndex a \<and> recvIndex a < UAMP_UPDATE_QUEUE_SIZE \<and>
     0 \<le> aliveInQueue a \<and> aliveInQueue a \<le> UAMP_UPDATE_QUEUE_SIZE \<and>
     (\<forall>k. 0 \<le> k \<and> k + 1 < aliveInQueue a \<longrightarrow>
          follows limit (window_upd a k) (window_upd a (k + 1))) \<and>
     (receivedFinal a \<longrightarrow>
        2 \<le> aliveInQueue a \<and> upd_time (window_upd a (aliveInQueue a - 1)) = limit) \<and>
     (2 \<le> aliveInQueue a \<longrightarrow> 0 < limit) \<and>
     (position a = 0 \<and> current_time a = 0 \<or>
      position a = 1 \<and> 1 \<le> aliveInQueue a \<and> upd_time (window_upd a 0) \<noteq> limit \<and>
        (2 \<le> aliveInQueue a \<longrightarrow> upd_time (window_upd a 0) < current_time a))"

text \<open>The current update has been received; the queue needs no request.\<close>

definition settled :: "uampAgent \<Rightarrow> bool" where
  "settled a \<longleftrightarrow> position a < aliveInQueue a"

definition filled :: "uampAgent \<Rightarrow> bool" where
  "filled a \<longleftrightarrow> receivedFinal a \<or> aliveInQueue a = UAMP_UPDATE_QUEUE_SIZE"

text \<open>What receiving replies may change in an agent: updates are added behind the alive ones.\<close>

definition extends :: "uampAgent \<Rightarrow> uampAgent \<Rightarrow> bool" where
  "extends a a' \<longleftrightarrow>
     currentIndex a' = currentIndex a \<and>
     length (updates a') = length (updates a) \<and>
     (recvIndex a' - aliveInQueue a') mod UAMP_UPDATE_QUEUE_SIZE =
       (recvIndex a - aliveInQueue a) mod UAMP_UPDATE_QUEUE_SIZE \<and>
     aliveInQueue a \<le> aliveInQueue a' \<and>
     (receivedFinal a \<longrightarrow> receivedFinal a') \<and>
     (\<forall>k. 0 \<le> k \<and> k < aliveInQueue a \<longrightarrow> window_upd a' k = window_upd a k)"

text \<open>The bounds of the two indices and of the count alone.\<close>

definition queue_bounds :: "uampAgent \<Rightarrow> bool" where
  "queue_bounds a \<longleftrightarrow>
     int (length (updates a)) = UAMP_UPDATE_QUEUE_SIZE \<and>
     0 \<le> currentIndex a \<and> currentIndex a < UAMP_UPDATE_QUEUE_SIZE \<and>
     0 \<le> recvIndex a \<and> recvIndex a < UAMP_UPDATE_QUEUE_SIZE \<and>
     0 \<le> aliveInQueue a \<and> aliveInQueue a \<le> UAMP_UPDATE_QUEUE_SIZE"

text \<open>
  The number of updates that are the current one or still to be consumed: the slots from
  \<open>currentIndex\<close> up to the slot in front of \<open>recvIndex\<close>, in ring order (all six when the
  two indices are equal; the current update of a session has always been received).
\<close>

definition current_or_later :: "uampAgent \<Rightarrow> int" where
  "current_or_later a =
     (recvIndex a - currentIndex a - 1) mod UAMP_UPDATE_QUEUE_SIZE + 1"

text \<open>What the queue operations leave alone in a session: all but the agents and the buffer.\<close>

definition same_session :: "uampClient \<Rightarrow> uampClient \<Rightarrow> bool" where
  "same_session c c' \<longleftrightarrow>
     fd c' = fd c \<and> serverFeatures c' = serverFeatures c \<and> numAgents c' = numAgents c \<and>
     timeLimit c' = timeLimit c \<and> numStates c' = numStates c \<and>
     largestLastTime c' = largestLastTime c \<and>
     smallestCurrentTime c' = smallestCurrentTime c \<and>
     changes c' = changes c \<and> numChanges c' = numChanges c \<and>
     length (the_agents c') = length (the_agents c) \<and> (agents c = None) = (agents c' = None)"

text \<open>The exact number of updates that the agents from \<open>i\<close> up to \<open>j\<close> need.\<close>

definition needs_sum :: "uampClient \<Rightarrow> nat \<Rightarrow> nat \<Rightarrow> nat" where
  "needs_sum c i j = (\<Sum>k = i..<j. nat (numToRequest c k))"

text \<open>
  The invariant of a session between two calls: the agents are allocated, at least one and
  at most \<open>INT_MAX\<close>; every queue satisfies its invariant and holds the current update and
  one more; the previous update of an agent is not later than \<open>largestLastTime\<close>; and
  \<open>smallestCurrentTime\<close> is the least current time.
\<close>

definition session_inv :: "uampClient \<Rightarrow> bool" where
  "session_inv c \<longleftrightarrow>
     agents c \<noteq> None \<and> length (the_agents c) = unat (numAgents c) \<and>
     0 < unat (numAgents c) \<and> uint (numAgents c) \<le> INT_MAX \<and>
     (\<forall>a \<in> set (the_agents c).
        queue_inv (timeLimit c) a \<and> 2 \<le> aliveInQueue a \<and>
        (position a = 1 \<longrightarrow> upd_time (window_upd a 0) \<le> largestLastTime c)) \<and>
     smallestCurrentTime c = Min (set (current_times c))"

section \<open>Properties of the socket layer\<close>

text \<open>
  The two loops of \<^verbatim>\<open>socketWrapper.c\<close> in closed form: a write delivers all the
  bytes, or as many as the socket still accepts and fails; a read returns the next bytes
  of the stream, or fails when the stream is too short.
\<close>

lemma socketWrite_eq:
  "socketWrite w bs =
     (case write_room w of
        None \<Rightarrow> (Success, w\<lparr>sent := sent w @ bs\<rparr>)
      | Some r \<Rightarrow>
          if length bs \<le> r
          then (Success, w\<lparr>sent := sent w @ bs, write_room := Some (r - length bs)\<rparr>)
          else (Failure ERROR_SOCKET_WRITE,
                w\<lparr>sent := sent w @ take r bs, write_room := Some 0\<rparr>))"
proof (induction w bs rule: socketWrite.induct)
  case (1 w bs)
  show ?case
  proof (cases "bs = []")
    case True
    then show ?thesis
      by (simp add: socketWrite.simps split: option.splits)
  next
    case False
    define tt where "tt = (if length bs < SSIZE_MAX then length bs else SSIZE_MAX)"
    have tt: "0 < tt" "tt \<le> length bs"
      using False by (auto simp: tt_def SSIZE_MAX_def)
    define k where "k = min (length (take tt bs)) (Suc (chunk w))"
    have k: "0 < k" "k \<le> tt" "k \<le> length bs"
      using tt by (auto simp: k_def)
    have tk: "take k (take tt bs) = take k bs"
      using k by (simp add: min_def)
    show ?thesis
    proof (cases "write_room w")
      case None
      have ow: "os_write w (take tt bs) = (int k, w\<lparr>sent := sent w @ take k bs\<rparr>)"
        using None tk by (simp add: os_write_def k_def Let_def)
      have "socketWrite w bs = socketWrite (w\<lparr>sent := sent w @ take k bs\<rparr>) (drop k bs)"
        using False ow k by (subst socketWrite.simps) (simp add: tt_def[symmetric])
      also have "\<dots> = (Success, w\<lparr>sent := sent w @ bs\<rparr>)"
        using "1.IH"[OF _ tt_def ow[symmetric]] False k None by simp
      finally show ?thesis using None by simp
    next
      case (Some r)
      show ?thesis
      proof (cases "r = 0")
        case True
        have ow: "os_write w (take tt bs) = (- 1, w)"
          using Some True by (simp add: os_write_def Let_def)
        have "socketWrite w bs = (Failure ERROR_SOCKET_WRITE, w)"
          using False ow by (subst socketWrite.simps) (simp add: tt_def[symmetric])
        then show ?thesis using Some True False by simp
      next
        case r0: False
        define k' where "k' = min k r"
        have k': "0 < k'" "k' \<le> k" "k' \<le> r" "k' \<le> length bs"
          using k r0 by (auto simp: k'_def)
        have tk': "take k' (take tt bs) = take k' bs"
          using k k' by (simp add: min_def)
        let ?w' = "w\<lparr>sent := sent w @ take k' bs, write_room := Some (r - k')\<rparr>"
        have ow: "os_write w (take tt bs) = (int k', ?w')"
          using Some r0 tk' unfolding os_write_def Let_def k'_def k_def by simp
        have "socketWrite w bs = socketWrite ?w' (drop k' bs)"
          using False ow k' by (subst socketWrite.simps) (simp add: tt_def[symmetric])
        also have "\<dots> = (if length bs \<le> r
          then (Success, w\<lparr>sent := sent w @ bs, write_room := Some (r - length bs)\<rparr>)
          else (Failure ERROR_SOCKET_WRITE,
                w\<lparr>sent := sent w @ take r bs, write_room := Some 0\<rparr>))"
        proof -
          have t: "take k' bs @ take (r - k') (drop k' bs) = take r bs"
            using k' by (metis le_add_diff_inverse take_add)
          show ?thesis
            using "1.IH"[OF _ tt_def ow[symmetric]] False k' t by auto
        qed
        finally show ?thesis using Some by simp
      qed
    qed
  qed
qed

lemma socketRead_eq:
  "socketRead w n =
     (if n \<le> length (incoming w)
      then (Success, take n (incoming w), w\<lparr>incoming := drop n (incoming w)\<rparr>)
      else (Failure (if read_fault w then ERROR_SOCKET_READ else ERROR_SOCKET_DRY),
            incoming w, w\<lparr>incoming := []\<rparr>))"
proof (induction w n rule: socketRead.induct)
  case (1 w n)
  show ?case
  proof (cases "n = 0")
    case True
    then show ?thesis by (simp add: socketRead.simps)
  next
    case n0: False
    define tt where "tt = (if n < SSIZE_MAX then n else SSIZE_MAX)"
    have tt: "0 < tt" "tt \<le> n" using n0 by (auto simp: tt_def SSIZE_MAX_def)
    show ?thesis
    proof (cases "incoming w = []")
      case True
      then have "os_read w tt = ((if read_fault w then - 1 else 0), [], w)"
        by (simp add: os_read_def)
      then show ?thesis using True n0
        by (subst socketRead.simps) (simp add: tt_def[symmetric])
    next
      case False
      define k where "k = min tt (min (length (incoming w)) (Suc (chunk w)))"
      have k: "0 < k" "k \<le> n" "k \<le> length (incoming w)"
        using tt False by (auto simp: k_def)
      let ?w' = "w\<lparr>incoming := drop k (incoming w)\<rparr>"
      have or: "os_read w tt = (int k, take k (incoming w), ?w')"
        using False by (simp add: os_read_def k_def Let_def)
      have "socketRead w n = (case socketRead ?w' (n - k) of
                        (r, bs', w'') \<Rightarrow> (r, take k (incoming w) @ bs', w''))"
        using n0 or k by (subst socketRead.simps) (simp add: tt_def[symmetric])
      moreover have "take k (incoming w) @ take (n - k) (drop k (incoming w)) = take n (incoming w)"
        using k by (metis le_add_diff_inverse take_add)
      ultimately show ?thesis
        using "1.IH"[OF _ tt_def or[symmetric]] n0 k by auto
    qed
  qed
qed

section \<open>Rounding to a \<^verbatim>\<open>double\<close>\<close>

text \<open>
  The rounded value is within half a unit in the last place of the exact one; an integer
  below \<open>2\<^sup>5\<^sup>3\<close> is a \<^verbatim>\<open>double\<close>; the constant \<^verbatim>\<open>UAMP_MAX_TIME\<close> is the \<^verbatim>\<open>double\<close> of
  its decimal literal, and no \<^verbatim>\<open>double\<close> lies between the two; an admissible time in
  seconds, times 1000 and rounded, is a number of milliseconds that fits 32 bits.
\<close>

lemma round_half_even_near: "\<bar>of_int (round_half_even y) - y\<bar> \<le> 1 / 2"
  unfolding round_half_even_def Let_def by (auto simp: abs_if) linarith+

lemma round_half_even_nonneg: "0 \<le> y \<Longrightarrow> 0 \<le> round_half_even y"
  unfolding round_half_even_def Let_def by (auto simp: abs_if)

lemma round_half_even_of_int [simp]: "round_half_even (of_int k) = k"
  unfolding round_half_even_def Let_def by simp

lemma double_ulp_pos: "0 < double_ulp x"
  by (simp add: double_ulp_def)

lemma double_exponent_eq:
  assumes "2 powr of_int k \<le> \<bar>x\<bar>" "\<bar>x\<bar> < 2 powr of_int (k + 1)" "- 1022 \<le> k"
  shows "double_exponent x = k"
proof -
  have "0 < \<bar>x\<bar>" using assms(1) by (smt (verit) powr_gt_zero)
  then have "\<lfloor>log 2 \<bar>x\<bar>\<rfloor> = k"
    using assms floor_log_eq_powr_iff[of "\<bar>x\<bar>" 2 k] by simp
  then show ?thesis using assms(3) by (simp add: double_exponent_def)
qed

lemma double_exponent_le:
  assumes "\<bar>x\<bar> < 2 ^ n" "x \<noteq> 0"
  shows "double_exponent x < int n"
proof -
  have "log 2 \<bar>x\<bar> < log 2 (2 ^ n)"
    using assms by (subst log_less_cancel_iff) auto
  then have "log 2 \<bar>x\<bar> < of_int (int n)" by simp
  then have "\<lfloor>log 2 \<bar>x\<bar>\<rfloor> < int n" by (simp add: floor_less_iff)
  then show ?thesis by (simp add: double_exponent_def)
qed

lemma double_ulp_le:
  assumes "\<bar>x\<bar> < 2 ^ 32" "x \<noteq> 0"
  shows "double_ulp x \<le> 1 / 2 ^ 21"
proof -
  have "double_exponent x \<le> 31" using double_exponent_le[OF assms] by simp
  then have "of_int (double_exponent x) - 52 \<le> (- 21 :: real)" by simp
  then have "double_ulp x \<le> 2 powr (- 21)"
    unfolding double_ulp_def by (intro powr_mono) auto
  also have "2 powr (- 21 :: real) = inverse (2 powr 21)" by (rule powr_minus)
  also have "(2::real) powr 21 = 2 ^ 21" by (rule powr_numeral) simp
  finally show ?thesis by (simp only: inverse_eq_divide)
qed

lemma round_double_near:
  assumes "0 \<le> x" "x < 2 ^ 32"
  shows "\<exists>p. round_double x = Finite p \<and> 0 \<le> p \<and> \<bar>p - x\<bar> \<le> 1 / 2 ^ 22"
proof (cases "x = 0")
  case True
  then show ?thesis by (simp add: round_double_def)
next
  case False
  define u where "u = double_ulp x"
  define k where "k = round_half_even (x / u)"
  have u: "0 < u" "u \<le> 1 / 2 ^ 21"
    using double_ulp_pos double_ulp_le[of x] assms False by (simp_all add: u_def)
  have k0: "0 \<le> k" using assms u by (simp add: k_def round_half_even_nonneg)
  have "\<bar>of_int k - x / u\<bar> \<le> 1 / 2"
    unfolding k_def by (rule round_half_even_near)
  then have "\<bar>of_int k - x / u\<bar> * u \<le> 1 / 2 * u" using u by (intro mult_right_mono) auto
  then have "\<bar>(of_int k - x / u) * u\<bar> \<le> u / 2" using u by (simp add: abs_mult)
  moreover have "(of_int k - x / u) * u = u * of_int k - x" using u by (simp add: field_simps)
  ultimately have near: "\<bar>u * of_int k - x\<bar> \<le> u / 2" by simp
  then have n2: "\<bar>u * of_int k - x\<bar> \<le> 1 / 2 ^ 22" using u by simp
  have "1 / 2 ^ 22 \<le> (1::real)" by simp
  with n2 have "\<bar>u * of_int k - x\<bar> \<le> 1" by linarith
  then have "u * of_int k \<le> x + 1" by linarith
  also have "x + 1 < 2 ^ 32 + 2 ^ 32" using assms by simp
  also have "(2::real) ^ 32 + 2 ^ 32 \<le> 2 ^ 1024" by simp
  finally have "u * of_int k < 2 ^ 1024" .
  moreover have "0 \<le> u * of_int k" using u k0 by simp
  ultimately have "round_double x = Finite (u * of_int k)"
    using False by (simp add: round_double_def Let_def u_def[symmetric] k_def[symmetric])
  then show ?thesis using n2 \<open>0 \<le> u * of_int k\<close> by simp
qed

lemma powr_neg_numeral: "(2::real) powr (- numeral n) = 1 / 2 ^ numeral n"
proof -
  have "(2::real) powr (- numeral n) = inverse (2 powr numeral n)" by (rule powr_minus)
  also have "(2::real) powr numeral n = 2 ^ numeral n" by (rule powr_numeral) simp
  finally show ?thesis by (simp only: inverse_eq_divide)
qed

lemma double_ulp_eq:
  assumes "2 powr of_int k \<le> \<bar>x\<bar>" "\<bar>x\<bar> < 2 powr of_int (k + 1)" "- 1022 \<le> k"
  shows "double_ulp x = 2 powr (of_int k - 52)"
  using double_exponent_eq[OF assms] by (simp add: double_ulp_def)

lemma double_ulp_22:
  assumes "2 ^ 22 \<le> x" "x < 2 ^ 23"
  shows "double_ulp x = 1 / 2 ^ 30"
proof -
  have p: "(2::real) powr of_int 22 = 2 ^ 22" "(2::real) powr of_int (22 + 1) = 2 ^ 23"
    by simp_all
  have "double_ulp x = 2 powr (of_int 22 - 52)"
    using assms by (intro double_ulp_eq) (simp_all only: p, simp_all)
  also have "of_int 22 - 52 = (- 30 :: real)" by simp
  finally show ?thesis by (simp only: powr_neg_numeral)
qed

lemma double_ulp_2:
  assumes "2 ^ 2 \<le> x" "x < 2 ^ 3"
  shows "double_ulp x = 1 / 2 ^ 50"
proof -
  have p: "(2::real) powr of_int 2 = 2 ^ 2" "(2::real) powr of_int (2 + 1) = 2 ^ 3"
    by simp_all
  have "double_ulp x = 2 powr (of_int 2 - 52)"
    using assms by (intro double_ulp_eq) (simp_all only: p, simp_all)
  also have "of_int 2 - 52 = (- 50 :: real)" by simp
  finally show ?thesis by (simp only: powr_neg_numeral)
qed

lemma UAMP_MAX_TIME_literal: "round_double 4294967.295 = Finite UAMP_MAX_TIME"
proof -
  have u: "double_ulp 4294967.295 = 1 / 2 ^ 30" by (rule double_ulp_22) simp_all
  have k: "round_half_even (4294967.295 / (1 / 2 ^ 30)) = 4611686017353646"
    by (simp add: round_half_even_def Let_def)
  show ?thesis
    unfolding round_double_def Let_def u k by (simp add: UAMP_MAX_TIME_def)
qed

lemma UAMP_MAX_TIME_gap:
  assumes "is_double r"
  shows "UAMP_MAX_TIME < r \<longleftrightarrow> 4294967.295 < r"
proof
  assume "4294967.295 < r"
  then show "UAMP_MAX_TIME < r" by (simp add: UAMP_MAX_TIME_def)
next
  assume a: "UAMP_MAX_TIME < r"
  show "4294967.295 < r"
  proof (rule ccontr)
    assume "\<not> 4294967.295 < r"
    then have b: "r \<le> 4294967.295" by simp
    have r: "2 ^ 22 \<le> r" "r < 2 ^ 23" using a b by (simp_all add: UAMP_MAX_TIME_def)
    have u: "double_ulp r = 1 / 2 ^ 30" using r by (rule double_ulp_22)
    define k where "k = round_half_even (r / (1 / 2 ^ 30))"
    have "r \<noteq> 0" using r by auto
    then have "round_double r = (let v = 1 / 2 ^ 30 * of_int k
         in if \<bar>v\<bar> \<ge> 2 ^ 1024 then (if r > 0 then PlusInfinity else MinusInfinity)
            else Finite v)"
      by (simp only: round_double_def u k_def if_False)
    then have "Finite r = (if \<bar>1 / 2 ^ 30 * real_of_int k\<bar> \<ge> 2 ^ 1024
        then (if r > 0 then PlusInfinity else MinusInfinity) else Finite (1 / 2 ^ 30 * of_int k))"
      using assms by (simp only: is_double_def Let_def)
    then have rk: "r = of_int k / 2 ^ 30" by (simp split: if_splits)
    have "(2305843008676823 / 536870912 :: real) < of_int k / 2 ^ 30"
      using a rk by (simp add: UAMP_MAX_TIME_def)
    then have "(4611686017353646 :: real) < of_int k" by simp
    then have k1: "4611686017353646 < k" by linarith
    have "real_of_int k / 2 ^ 30 \<le> 4294967.295" using b rk by simp
    then have "real_of_int k \<le> 4294967.295 * 2 ^ 30" by (simp add: field_simps)
    also have "(4294967.295 * 2 ^ 30 :: real) < 4611686017353647" by simp
    finally have "k < 4611686017353647" by linarith
    then show False using k1 by simp
  qed
qed

lemma send_time_range:
  assumes "0 \<le> r" "r \<le> UAMP_MAX_TIME"
  shows "\<exists>p. round_double (r * 1000) = Finite p \<and> \<bar>p - r * 1000\<bar> \<le> 1 / 2 ^ 22 \<and>
             0 \<le> round_half_away p \<and> round_half_away p \<le> 4294967295 \<and>
             round_half_away p = round p"
proof -
  have x: "0 \<le> r * 1000" "r * 1000 \<le> 4294967295 - 1 / 20000000" "r * 1000 < 2 ^ 32"
    using assms by (simp_all add: UAMP_MAX_TIME_def)
  obtain p where p: "round_double (r * 1000) = Finite p" "0 \<le> p" "\<bar>p - r * 1000\<bar> \<le> 1 / 2 ^ 22"
    using round_double_near[OF x(1,3)] by blast
  have "1 / 2 ^ 22 \<le> (1 / 4000000 :: real)" by simp
  with p(3) have "p \<le> r * 1000 + 1 / 4000000" by linarith
  with x(2) have "p + 1 / 2 < 4294967296" by linarith
  then have "\<lfloor>p + 1 / 2\<rfloor> < 4294967296" by (simp add: floor_less_iff)
  then have hi: "round_half_away p \<le> 4294967295" using p(2) by (simp add: round_half_away_def)
  have lo: "0 \<le> round_half_away p" using p(2) by (simp add: round_half_away_def)
  have "round_half_away p = round p" using p(2) by (simp add: round_half_away_def round_def)
  then show ?thesis using p hi lo by blast
qed

lemma example_product:
  "round_double (5188146770730811 / 1152921504606846976 * 1000) = Finite 4.5"
proof -
  have u: "double_ulp (5188146770730811 / 1152921504606846976 * 1000) = 1 / 2 ^ 50"
    by (rule double_ulp_2) simp_all
  have k: "round_half_even (5188146770730811 / 1152921504606846976 * 1000 / (1 / 2 ^ 50))
      = 5066549580791808"
    by (simp add: round_half_even_def Let_def)
  show ?thesis
    unfolding round_double_def Let_def u k by simp
qed

section \<open>State changes\<close>

text \<open>
  Claim C10. On a UAMP session (\<open>numStates = 0\<close>) \<^verbatim>\<open>uampChangeState\<close> returns 0 at
  once, whatever the arguments, and changes nothing: no time, state or agent is checked.
  On an MVISP session an agent id out of range, with an admissible time, fails the
  assertion instead.
\<close>

theorem uampChangeState_uamp_no_validation:
  "(numStates c = 0 \<longrightarrow> uampChangeState c w a t s = (Success, c, w)) \<and>
   (numStates c \<noteq> 0 \<and> \<not> dless t (Finite 0) \<and> \<not> dless (Finite UAMP_MAX_TIME) t \<and>
    \<not> (0 \<le> a \<and> a < uint (numAgents c)) \<longrightarrow>
      uampChangeState c w a t s = (Aborted, c, w))"
  by (auto simp: uampChangeState_def Let_def)

theorem uampChangeState_uamp_no_validation_witness:
  "numStates (example_client 0) = 0 \<and>
   uampChangeState (example_client 0) example_world (- 1) (Finite (- 5)) (- 7) =
     (Success, example_client 0, example_world) \<and>
   uampChangeState (example_client 0) example_world 99 (Finite 4294968) 99 =
     (Success, example_client 0, example_world) \<and>
   uampChangeState (example_client 0) example_world 99 NaN 99 =
     (Success, example_client 0, example_world) \<and>
   numStates (example_client 2) \<noteq> 0 \<and> \<not> dless (Finite 1) (Finite 0) \<and>
   \<not> dless (Finite UAMP_MAX_TIME) (Finite 1) \<and>
   \<not> (0 \<le> (99::int) \<and> 99 < uint (numAgents (example_client 2))) \<and>
   uampChangeState (example_client 2) example_world 99 (Finite 1) 1 =
     (Aborted, example_client 2, example_world)"
  using uampChangeState_uamp_no_validation
      [of "example_client 0" example_world "- 1" "Finite (- 5)" "- 7"]
    uampChangeState_uamp_no_validation [of "example_client 0" example_world 99 "Finite 4294968" 99]
    uampChangeState_uamp_no_validation [of "example_client 0" example_world 99 NaN 99]
    uampChangeState_uamp_no_validation [of "example_client 2" example_world 99 "Finite 1" 1]
  by (simp add: example_client_def UAMP_MAX_TIME_def)

section \<open>Properties of the framed I/O buffer\<close>

text \<open>
  Closed forms of \<^verbatim>\<open>socketWriteRaw\<close> and \<^verbatim>\<open>socketReadRaw\<close> for data that fits the
  buffer: a write is kept in the buffer until the declared total is reached and then
  flushed in one piece; a read refills the buffer once with all the bytes still declared.
\<close>

lemma u64_id: "n < 2 ^ 64 \<Longrightarrow> u64 n = n"
  by (simp add: u64_def)

lemma u64_sub_id: "b \<le> a \<Longrightarrow> a < 2 ^ 64 \<Longrightarrow> u64_sub a b = a - b"
proof -
  assume h: "b \<le> a" "a < 2 ^ 64"
  have "(int a - int b) mod 2 ^ 64 = int (a - b) mod 2 ^ 64"
    using h by (simp add: of_nat_diff)
  also have "\<dots> = int (a - b)"
    using h by (intro mod_pos_pos_trivial) auto
  finally show ?thesis by (simp add: u64_sub_def)
qed

lemma socketWriteRaw_loop_Nil: "socketWriteRaw_loop buf w [] = (Success, buf, w)"
  by (simp add: socketWriteRaw_loop.simps)

lemma socketWriteRaw_loop_step:
  assumes "data \<noteq> []" "length (buffer buf) + length data \<le> 2048"
  shows "socketWriteRaw_loop buf w data =
     (let buf1 = buf\<lparr>buffer := buffer buf @ data, passed := u64 (passed buf + length data)\<rparr>
      in if length (buffer buf1) = UAMP_IO_BUFFER_SIZE \<or> passed buf1 = total buf1 then
           (case socketWrite w (buffer buf1) of
              (r, w') \<Rightarrow>
                if r \<noteq> Success then (r, buf1, w')
                else (Success, buf1\<lparr>buffer := []\<rparr>, w'))
         else (Success, buf1, w))"
proof -
  have a: "0 < length data" "\<not> UAMP_IO_BUFFER_SIZE < length (buffer buf)"
    using assms by (auto simp: UAMP_IO_BUFFER_SIZE_def)
  have tt: "(if length data < UAMP_IO_BUFFER_SIZE - length (buffer buf) then length data
      else UAMP_IO_BUFFER_SIZE - length (buffer buf)) = length data"
    using assms by (auto simp: UAMP_IO_BUFFER_SIZE_def)
  show ?thesis
    apply (subst socketWriteRaw_loop.simps)
    apply (simp only: a if_True if_False Let_def tt take_all drop_all order_refl
        socketWriteRaw_loop_Nil)
    done
qed


lemma socketWriteRaw_pending:
  assumes "data \<noteq> []" "length (buffer buf) + length data < 2048"
    "passed buf + length data < total buf" "total buf < 2 ^ 64"
  shows "socketWriteRaw buf w data =
           (Success, buf\<lparr>buffer := buffer buf @ data, passed := passed buf + length data\<rparr>, w)"
proof -
  have p: "u64 (passed buf + length data) = passed buf + length data"
    using assms by (simp add: u64_id)
  have "socketWriteRaw buf w data = socketWriteRaw_loop buf w data"
    using assms p by (simp add: socketWriteRaw_def Let_def)
  also have "\<dots> = (Success, buf\<lparr>buffer := buffer buf @ data, passed := passed buf + length data\<rparr>, w)"
    using assms p by (subst socketWriteRaw_loop_step) (simp_all add: Let_def UAMP_IO_BUFFER_SIZE_def)
  finally show ?thesis .
qed

lemma socketWriteRaw_flush:
  assumes "data \<noteq> []" "length (buffer buf) + length data \<le> 2048"
    "passed buf + length data = total buf" "total buf < 2 ^ 64"
  shows "socketWriteRaw buf w data =
           (case socketWrite w (buffer buf @ data) of
              (r, w') \<Rightarrow>
                if r \<noteq> Success
                then (r, buf\<lparr>buffer := buffer buf @ data, passed := total buf\<rparr>, w')
                else (Success, buf\<lparr>buffer := [], passed := total buf\<rparr>, w'))"
proof -
  have p: "u64 (passed buf + length data) = total buf"
    using assms by (simp add: u64_id)
  have "socketWriteRaw buf w data = socketWriteRaw_loop buf w data"
    using assms p by (simp add: socketWriteRaw_def Let_def)
  also have "\<dots> = (case socketWrite w (buffer buf @ data) of
              (r, w') \<Rightarrow>
                if r \<noteq> Success
                then (r, buf\<lparr>buffer := buffer buf @ data, passed := total buf\<rparr>, w')
                else (Success, buf\<lparr>buffer := [], passed := total buf\<rparr>, w'))"
    using assms p by (subst socketWriteRaw_loop_step) (auto simp: Let_def split: prod.splits)
  finally show ?thesis .
qed

lemma socketReadRaw_loop_0: "socketReadRaw_loop buf w 0 = (Success, [], buf, w)"
  by (simp add: socketReadRaw_loop.simps)

lemma socketReadRaw_loop_buffered:
  assumes "0 < len" "len \<le> length (buffer buf)"
  shows "socketReadRaw_loop buf w len =
           (Success, take len (buffer buf),
            buf\<lparr>buffer := drop len (buffer buf), passed := u64 (passed buf + len)\<rparr>, w)"
proof -
  have ne: "buffer buf \<noteq> []" "(buffer buf = []) = False" using assms by auto
  have tt: "(if len < length (buffer buf) then len else length (buffer buf)) = len"
    using assms by simp
  have d: "len - len = 0" by simp
  show ?thesis
    apply (subst socketReadRaw_loop.simps)
    apply (simp only: assms(1) ne tt d if_True if_False Let_def prod.case
        socketReadRaw_loop_0 append_Nil2 simp_thms ret.simps)
    done
qed

lemma socketReadRaw_loop_refill_step:
  assumes "0 < len" "buffer buf = []"
    and "socketRead w (if u64_sub (total buf) (passed buf) < UAMP_IO_BUFFER_SIZE
                 then u64_sub (total buf) (passed buf) else UAMP_IO_BUFFER_SIZE) = (Success, bs, w')"
    and "bs \<noteq> []"
  shows "socketReadRaw_loop buf w len = socketReadRaw_loop (buf\<lparr>buffer := bs\<rparr>) w' len"
  apply (subst socketReadRaw_loop.simps)
  apply (subst (2) socketReadRaw_loop.simps)
  using assms
  apply (simp add: Let_def)
  done

lemma socketReadRaw_loop_refill:
  assumes "0 < len" "buffer buf = []"
    and k: "k = (if u64_sub (total buf) (passed buf) < UAMP_IO_BUFFER_SIZE
                 then u64_sub (total buf) (passed buf) else UAMP_IO_BUFFER_SIZE)"
    and "len \<le> k"
  shows "socketReadRaw_loop buf w len =
           (if k \<le> length (incoming w)
            then (Success, take len (incoming w),
                  buf\<lparr>buffer := drop len (take k (incoming w)), passed := u64 (passed buf + len)\<rparr>,
                  w\<lparr>incoming := drop k (incoming w)\<rparr>)
            else (Failure (if read_fault w then ERROR_SOCKET_READ else ERROR_SOCKET_DRY),
                  [], buf, w\<lparr>incoming := []\<rparr>))"
proof (cases "k \<le> length (incoming w)")
  case True
  let ?buf1 = "buf\<lparr>buffer := take k (incoming w)\<rparr>"
  let ?w1 = "w\<lparr>incoming := drop k (incoming w)\<rparr>"
  have l: "len \<le> length (buffer ?buf1)" using True assms by simp
  have ne: "take k (incoming w) \<noteq> []" using True assms by auto
  have rd: "socketRead w (if u64_sub (total buf) (passed buf) < UAMP_IO_BUFFER_SIZE
                 then u64_sub (total buf) (passed buf) else UAMP_IO_BUFFER_SIZE)
            = (Success, take k (incoming w), ?w1)"
    using True by (simp add: socketRead_eq k[symmetric])
  have t: "take len (take k (incoming w)) = take len (incoming w)"
    using assms by (simp add: min_def)
  have "socketReadRaw_loop buf w len = socketReadRaw_loop ?buf1 ?w1 len"
    by (rule socketReadRaw_loop_refill_step[OF assms(1,2) rd ne])
  then show ?thesis
    using True socketReadRaw_loop_buffered[OF assms(1) l, of ?w1] t by simp
next
  case False
  show ?thesis
    apply (subst socketReadRaw_loop.simps)
    apply (simp only: assms(1) assms(2) k[symmetric] if_True Let_def socketRead_eq False
        prod.case simp_thms ret.simps if_False)
    done
qed

lemma socketReadRaw_buffered:
  assumes "0 < len" "len \<le> length (buffer buf)" "passed buf + len \<le> total buf"
    "total buf < 2 ^ 64"
  shows "socketReadRaw buf w len =
           (Success, take len (buffer buf),
            buf\<lparr>buffer := drop len (buffer buf), passed := passed buf + len\<rparr>, w)"
proof -
  have p: "u64 (passed buf + len) = passed buf + len"
    using assms by (simp add: u64_id)
  have "socketReadRaw buf w len = socketReadRaw_loop buf w len"
    using assms p by (simp add: socketReadRaw_def Let_def)
  then show ?thesis
    using socketReadRaw_loop_buffered[OF assms(1,2)] p by simp
qed

lemma socketReadRaw_refill:
  assumes "0 < len" "buffer buf = []" "passed buf + len \<le> total buf"
    "total buf < 2 ^ 64" "total buf - passed buf \<le> 2048"
  shows "socketReadRaw buf w len =
           (if total buf - passed buf \<le> length (incoming w)
            then (Success, take len (incoming w),
                  buf\<lparr>buffer := drop len (take (total buf - passed buf) (incoming w)),
                      passed := passed buf + len\<rparr>,
                  w\<lparr>incoming := drop (total buf - passed buf) (incoming w)\<rparr>)
            else (Failure (if read_fault w then ERROR_SOCKET_READ else ERROR_SOCKET_DRY),
                  [], buf, w\<lparr>incoming := []\<rparr>))"
proof -
  have p: "u64 (passed buf + len) = passed buf + len"
    using assms by (simp add: u64_id)
  have s: "u64_sub (total buf) (passed buf) = total buf - passed buf"
    using assms by (simp add: u64_sub_id)
  have k: "total buf - passed buf =
      (if u64_sub (total buf) (passed buf) < UAMP_IO_BUFFER_SIZE
       then u64_sub (total buf) (passed buf) else UAMP_IO_BUFFER_SIZE)"
    using assms s by (simp add: UAMP_IO_BUFFER_SIZE_def)
  have l: "len \<le> total buf - passed buf" using assms by simp
  have "socketReadRaw buf w len = socketReadRaw_loop buf w len"
    using assms p by (simp add: socketReadRaw_def Let_def)
  then show ?thesis
    using socketReadRaw_loop_refill[OF assms(1,2) k l] p by simp
qed


section \<open>Receiving a reply\<close>

lemma set_slot_simps [simp]:
  "aliveInQueue (set_slot a i u) = aliveInQueue a"
  "recvIndex (set_slot a i u) = recvIndex a"
  "currentIndex (set_slot a i u) = currentIndex a"
  "receivedFinal (set_slot a i u) = receivedFinal a"
  "length (updates (set_slot a i u)) = length (updates a)"
  "set_slot (set_slot a i u) i v = set_slot a i v"
  by (simp_all add: set_slot_def)

lemma slot_set_slot [simp]:
  "slot_ok a i \<Longrightarrow> slot (set_slot a i u) i = u"
  "0 \<le> i \<Longrightarrow> 0 \<le> j \<Longrightarrow> i \<noteq> j \<Longrightarrow> slot (set_slot a i u) j = slot a j"
  by (auto simp: set_slot_def slot_def slot_ok_def)

lemma slot_ok_set_slot [simp]: "slot_ok (set_slot a i u) j = slot_ok a j"
  by (simp add: slot_ok_def)

lemma receiveReply_read_frame:
  assumes "receiveReply_read client agent w = (r, a1, buf1, w1)"
  shows "\<exists>u. a1 = set_slot agent (recvIndex agent) u"
  using assms unfolding receiveReply_read_def Let_def
  by (auto split: prod.splits if_splits simp del: One_nat_def)


text \<open>
  Claim C1. For a reply that has been read into the slot at \<open>recvIndex\<close>,
  \<^verbatim>\<open>receiveReply\<close> checks in this order and returns these errors. On an empty queue
  (\<open>aliveInQueue = 0\<close>) the time must be 0, else \<open>ERROR_FIRST_UPDATE_TIME\<close>. On a queue
  that is not empty the reply is compared with the previous slot of the ring: when
  \<open>receivedFinal\<close> is set, the two must be equal, else \<open>ERROR_NON_EQUAL_FINAL_UPDATES\<close>;
  when it is not set, the time must exceed the previous time, else
  \<open>ERROR_TIMESTAMP_NOT_INCREMENTED\<close>, and must not exceed the time limit, else
  \<open>ERROR_TIMESTAMP_TOO_LARGE\<close>, and a time equal to the limit sets \<open>receivedFinal\<close>.
  Last, a present flag other than 0 and 1 gives \<open>ERROR_INVALID_PRESENT_FLAG\<close>. On
  success \<open>aliveInQueue\<close> is incremented and \<open>recvIndex\<close> moves to the next slot of
  the ring. Reading the reply changes nothing but the slot at \<open>recvIndex\<close>.
\<close>

theorem receiveReply_verification_order:
  assumes ok: "slot_ok agent (recvIndex agent)" "slot_ok agent (UAMP_UPDATE_QUEUE_SIZE - 1)"
    and rd: "receiveReply_read client agent w = (Success, a1, buf1, w1)"
  defines "reply \<equiv> slot a1 (recvIndex agent)"
    and "previous \<equiv> slot a1 (ring_prev (recvIndex agent))"
    and "fresh \<equiv> aliveInQueue agent = 0"
    and "final \<equiv> receivedFinal agent"
    and "limit \<equiv> timeLimit client"
  defines "time_ok \<equiv>
      (if fresh then upd_time reply = 0
       else if final then reply = previous
       else upd_time previous < upd_time reply \<and> upd_time reply \<le> limit)"
    and "a2 \<equiv> (if \<not> fresh \<and> \<not> final \<and> upd_time reply = limit
                then a1\<lparr>receivedFinal := True\<rparr> else a1)"
  shows
    "aliveInQueue a1 = aliveInQueue agent \<and> recvIndex a1 = recvIndex agent \<and>
     receivedFinal a1 = receivedFinal agent \<and> currentIndex a1 = currentIndex agent \<and>
     (\<forall>j. 0 \<le> j \<and> j \<noteq> recvIndex agent \<longrightarrow> slot a1 j = slot agent j) \<and>
     (fresh \<and> upd_time reply \<noteq> 0 \<longrightarrow>
        receiveReply client agent w = (Failure ERROR_FIRST_UPDATE_TIME, a1, buf1, w1)) \<and>
     (\<not> fresh \<and> final \<and> reply \<noteq> previous \<longrightarrow>
        receiveReply client agent w = (Failure ERROR_NON_EQUAL_FINAL_UPDATES, a1, buf1, w1)) \<and>
     (\<not> fresh \<and> \<not> final \<and> upd_time reply \<le> upd_time previous \<longrightarrow>
        receiveReply client agent w = (Failure ERROR_TIMESTAMP_NOT_INCREMENTED, a1, buf1, w1)) \<and>
     (\<not> fresh \<and> \<not> final \<and> upd_time previous < upd_time reply \<and> limit < upd_time reply \<longrightarrow>
        receiveReply client agent w = (Failure ERROR_TIMESTAMP_TOO_LARGE, a1, buf1, w1)) \<and>
     (time_ok \<and> upd_present reply \<noteq> 0 \<and> upd_present reply \<noteq> 1 \<longrightarrow>
        receiveReply client agent w = (Failure ERROR_INVALID_PRESENT_FLAG, a2, buf1, w1)) \<and>
     (time_ok \<and> (upd_present reply = 0 \<or> upd_present reply = 1) \<longrightarrow>
        receiveReply client agent w =
          (Success,
           a2\<lparr>aliveInQueue := aliveInQueue agent + 1,
              recvIndex := ring_next (recvIndex agent)\<rparr>, buf1, w1))"
proof -
  obtain u where a1: "a1 = set_slot agent (recvIndex agent) u"
    using receiveReply_read_frame[OF rd] by blast
  have r0: "0 \<le> recvIndex agent" using ok by (simp add: slot_ok_def)
  have frame: "aliveInQueue a1 = aliveInQueue agent" "recvIndex a1 = recvIndex agent"
    "receivedFinal a1 = receivedFinal agent" "currentIndex a1 = currentIndex agent"
    "\<forall>j. 0 \<le> j \<and> j \<noteq> recvIndex agent \<longrightarrow> slot a1 j = slot agent j"
    using a1 r0 by auto
  have rr: "receiveReply client agent w =
      (case receiveReply_verify limit a1 of (r', a2) \<Rightarrow> (r', a2, buf1, w1))"
    using ok rd by (simp add: receiveReply_def limit_def)
  define PC where "PC = (\<lambda>a::uampAgent. if upd_present reply \<noteq> 0 \<and> upd_present reply \<noteq> 1
        then (Failure ERROR_INVALID_PRESENT_FLAG, a)
        else (Success, a\<lparr>aliveInQueue := aliveInQueue agent + 1,
                         recvIndex := ring_next (recvIndex agent)\<rparr>))"
  have v: "receiveReply_verify limit a1 =
     (if fresh then (if upd_time reply \<noteq> 0 then (Failure ERROR_FIRST_UPDATE_TIME, a1) else PC a1)
      else if final then
        (if reply \<noteq> previous then (Failure ERROR_NON_EQUAL_FINAL_UPDATES, a1) else PC a1)
      else if upd_time reply \<le> upd_time previous
      then (Failure ERROR_TIMESTAMP_NOT_INCREMENTED, a1)
      else if limit < upd_time reply then (Failure ERROR_TIMESTAMP_TOO_LARGE, a1)
      else PC (if upd_time reply = limit then a1\<lparr>receivedFinal := True\<rparr> else a1))"
    by (simp add: receiveReply_verify_def Let_def reply_def previous_def ring_prev_def
        fresh_def final_def frame(1-4) ring_next_def PC_def)
  have c1: "fresh \<and> upd_time reply \<noteq> 0 \<longrightarrow>
        receiveReply client agent w = (Failure ERROR_FIRST_UPDATE_TIME, a1, buf1, w1)"
    unfolding rr v by simp
  have c2: "\<not> fresh \<and> final \<and> reply \<noteq> previous \<longrightarrow>
        receiveReply client agent w = (Failure ERROR_NON_EQUAL_FINAL_UPDATES, a1, buf1, w1)"
    unfolding rr v by simp
  have c3: "\<not> fresh \<and> \<not> final \<and> upd_time reply \<le> upd_time previous \<longrightarrow>
        receiveReply client agent w = (Failure ERROR_TIMESTAMP_NOT_INCREMENTED, a1, buf1, w1)"
    unfolding rr v by simp
  have c4: "\<not> fresh \<and> \<not> final \<and> upd_time previous < upd_time reply \<and> limit < upd_time reply \<longrightarrow>
        receiveReply client agent w = (Failure ERROR_TIMESTAMP_TOO_LARGE, a1, buf1, w1)"
    unfolding rr v by (simp add: not_le[symmetric])
  have c5: "time_ok \<and> upd_present reply \<noteq> 0 \<and> upd_present reply \<noteq> 1 \<longrightarrow>
        receiveReply client agent w = (Failure ERROR_INVALID_PRESENT_FLAG, a2, buf1, w1)"
    unfolding rr v time_ok_def a2_def PC_def
    by (cases fresh; cases final; auto)
  have c6: "time_ok \<and> (upd_present reply = 0 \<or> upd_present reply = 1) \<longrightarrow>
        receiveReply client agent w =
          (Success,
           a2\<lparr>aliveInQueue := aliveInQueue agent + 1,
              recvIndex := ring_next (recvIndex agent)\<rparr>, buf1, w1)"
    unfolding rr v time_ok_def a2_def PC_def
    by (cases fresh; cases final; auto)
  show ?thesis
    using frame c1 c2 c3 c4 c5 c6 by blast
qed

theorem receiveReply_verification_order_witness:
  "slot_ok calloc_agent (recvIndex calloc_agent) \<and>
   slot_ok calloc_agent (UAMP_UPDATE_QUEUE_SIZE - 1) \<and>
   receiveReply_read example_reply_client calloc_agent example_reply_world =
     (Success, set_slot calloc_agent 0 example_reply,
      \<lparr>total = 12, passed = 12, buffer = []\<rparr>, example_world) \<and>
   receiveReply example_reply_client calloc_agent example_reply_world =
     (Success, (set_slot calloc_agent 0 example_reply)\<lparr>aliveInQueue := 1, recvIndex := 1\<rparr>,
      \<lparr>total = 12, passed = 12, buffer = []\<rparr>, example_world)"
proof -
  have ok: "slot_ok calloc_agent (recvIndex calloc_agent)"
    "slot_ok calloc_agent (UAMP_UPDATE_QUEUE_SIZE - 1)"
    by (simp_all add: slot_ok_def calloc_agent_def UAMP_UPDATE_QUEUE_SIZE_def)
  have rd: "receiveReply_read example_reply_client calloc_agent example_reply_world =
    (Success, set_slot calloc_agent 0 example_reply,
     \<lparr>total = 12, passed = 12, buffer = []\<rparr>, example_world)"
    by (simp add: receiveReply_read_def example_reply_client_def example_reply_world_def
      example_client_def example_world_def example_reply_def
      calloc_agent_def calloc_update_def UAMP_UPDATE_QUEUE_SIZE_def
      socketRead32_def socketReadRaw_refill socketReadRaw_buffered Let_def
      set_slot_def slot_def UAMP_SUPPORTS_3D_def UAMP_SUPPORTS_ADD_REMOVE_def)
  have s: "slot (set_slot calloc_agent 0 example_reply) (recvIndex calloc_agent) = example_reply"
    by (simp add: set_slot_def slot_def calloc_agent_def UAMP_UPDATE_QUEUE_SIZE_def)
  have a: "aliveInQueue calloc_agent = 0" "recvIndex calloc_agent = 0"
    by (simp_all add: calloc_agent_def)
  show ?thesis
    using receiveReply_verification_order [OF ok rd] ok rd s
    by (simp add: a example_reply_def ring_next_def UAMP_UPDATE_QUEUE_SIZE_def)
qed

section \<open>The handshake\<close>

lemma length4E:
  assumes "length xs = 4"
  obtains a b c d where "xs = [a, b, c, d]"
proof -
  from assms obtain a xs1 where 1: "xs = a # xs1" "length xs1 = 3"
    by (cases xs) auto
  then obtain b xs2 where 2: "xs1 = b # xs2" "length xs2 = 2" by (cases xs1) auto
  then obtain c xs3 where 3: "xs2 = c # xs3" "length xs3 = 1" by (cases xs2) auto
  then obtain d where 4: "xs3 = [d]" by (cases xs3) auto
  show ?thesis using that 1 2 3 4 by simp
qed

lemma handshake_hello:
  assumes hello: "hello = (if isUAMP then tag_UAMP else tag_MVIS) @ [SUPPORTED_VERSION] @ be32 sf"
    and wr: "socketWrite w hello = (Success, w1)"
  shows "socketWriteRaw (beginWrite buf 9) w (if isUAMP then tag_UAMP else tag_MVIS)
           = (Success, \<lparr>total = 9, passed = 4, buffer = (if isUAMP then tag_UAMP else tag_MVIS)\<rparr>, w)"
    and "socketWrite8 \<lparr>total = 9, passed = 4, buffer = (if isUAMP then tag_UAMP else tag_MVIS)\<rparr> w
            SUPPORTED_VERSION
           = (Success, \<lparr>total = 9, passed = 5,
                buffer = (if isUAMP then tag_UAMP else tag_MVIS) @ [SUPPORTED_VERSION]\<rparr>, w)"
    and "socketWrite32 \<lparr>total = 9, passed = 5,
                buffer = (if isUAMP then tag_UAMP else tag_MVIS) @ [SUPPORTED_VERSION]\<rparr> w sf
           = (Success, \<lparr>total = 9, passed = 9, buffer = []\<rparr>, w1)"
proof -
  show "socketWriteRaw (beginWrite buf 9) w (if isUAMP then tag_UAMP else tag_MVIS)
           = (Success, \<lparr>total = 9, passed = 4, buffer = (if isUAMP then tag_UAMP else tag_MVIS)\<rparr>, w)"
    by (subst socketWriteRaw_pending) (auto simp: beginWrite_def tag_UAMP_def tag_MVIS_def)
  show "socketWrite8 \<lparr>total = 9, passed = 4, buffer = (if isUAMP then tag_UAMP else tag_MVIS)\<rparr> w
            SUPPORTED_VERSION
           = (Success, \<lparr>total = 9, passed = 5,
                buffer = (if isUAMP then tag_UAMP else tag_MVIS) @ [SUPPORTED_VERSION]\<rparr>, w)"
    unfolding socketWrite8_def
    by (subst socketWriteRaw_pending) (auto simp: tag_UAMP_def tag_MVIS_def)
  show "socketWrite32 \<lparr>total = 9, passed = 5,
                buffer = (if isUAMP then tag_UAMP else tag_MVIS) @ [SUPPORTED_VERSION]\<rparr> w sf
           = (Success, \<lparr>total = 9, passed = 9, buffer = []\<rparr>, w1)"
    unfolding socketWrite32_def
    apply (subst socketWriteRaw_flush)
        apply (auto simp: tag_UAMP_def tag_MVIS_def be32_def)[4]
    using wr unfolding hello
    apply (simp add: be32_def)
    done
qed

lemma handshake_reads:
  assumes inc: "incoming w1 = [i0, i1, i2, i3, ver, f0, f1, f2, f3] @ rest"
  shows "socketReadRaw (beginRead buf 9) w1 4
           = (Success, [i0, i1, i2, i3], \<lparr>total = 9, passed = 4, buffer = [ver, f0, f1, f2, f3]\<rparr>,
              w1\<lparr>incoming := rest\<rparr>)"
    and "socketRead8 \<lparr>total = 9, passed = 4, buffer = [ver, f0, f1, f2, f3]\<rparr> w2 v0
           = (Success, ver, \<lparr>total = 9, passed = 5, buffer = [f0, f1, f2, f3]\<rparr>, w2)"
    and "socketRead32 \<lparr>total = 9, passed = 5, buffer = [f0, f1, f2, f3]\<rparr> w2 v1
           = (Success, un_be32 [f0, f1, f2, f3], \<lparr>total = 9, passed = 9, buffer = []\<rparr>, w2)"
proof -
  show "socketReadRaw (beginRead buf 9) w1 4
           = (Success, [i0, i1, i2, i3], \<lparr>total = 9, passed = 4, buffer = [ver, f0, f1, f2, f3]\<rparr>,
              w1\<lparr>incoming := rest\<rparr>)"
    by (subst socketReadRaw_refill) (auto simp: beginRead_def inc)
  show "socketRead8 \<lparr>total = 9, passed = 4, buffer = [ver, f0, f1, f2, f3]\<rparr> w2 v0
           = (Success, ver, \<lparr>total = 9, passed = 5, buffer = [f0, f1, f2, f3]\<rparr>, w2)"
    unfolding socketRead8_def
    by (subst socketReadRaw_buffered) auto
  show "socketRead32 \<lparr>total = 9, passed = 5, buffer = [f0, f1, f2, f3]\<rparr> w2 v1
           = (Success, un_be32 [f0, f1, f2, f3], \<lparr>total = 9, passed = 9, buffer = []\<rparr>, w2)"
    unfolding socketRead32_def
    by (subst socketReadRaw_buffered) auto
qed


lemma handshake_body_exchanged:
  assumes ok: "NOT (UAMP_SUPPORTS_3D OR UAMP_SUPPORTS_ADD_REMOVE) AND sf = 0"
    and hello: "hello = (if isUAMP then tag_UAMP else tag_MVIS) @ [SUPPORTED_VERSION] @ be32 sf"
    and wr: "socketWrite w hello = (Success, w1)"
    and inc: "incoming w = [i0, i1, i2, i3, ver, f0, f1, f2, f3] @ rest"
  shows "handshake_body c w isUAMP sf =
     (let ident = [i0, i1, i2, i3];
          client1 = c\<lparr>commBuf := \<lparr>total = 9, passed = 9, buffer = []\<rparr>,
                      serverFeatures := un_be32 [f0, f1, f2, f3]\<rparr>;
          w6 = w1\<lparr>incoming := rest\<rparr>
      in if isUAMP \<and> ident = tag_MVIS
        then (Failure ERROR_UAMP_CLIENT_MVISP_SERVER, True, client1, w6)
        else if isUAMP \<and> ident \<noteq> tag_UAMP
        then (Failure ERROR_SERVER_UNKNOWN_HANDSHAKE, True, client1, w6)
        else if \<not> isUAMP \<and> ident = tag_UAMP
        then (Failure ERROR_MVISP_CLIENT_UAMP_SERVER, True, client1, w6)
        else if \<not> isUAMP \<and> ident \<noteq> tag_MVIS
        then (Failure ERROR_SERVER_UNKNOWN_HANDSHAKE, True, client1, w6)
        else if ver AND SUPPORTED_VERSION = 0
        then (Failure ERROR_NO_SHARED_VERSION, True, client1, w6)
        else if serverFeatures client1 AND UAMP_SUPPORTS_3D \<noteq> 0 \<and>
                sf AND UAMP_SUPPORTS_3D = 0
        then (Failure ERROR_2D_CLIENT_3D_SERVER, True, client1, w6)
        else if serverFeatures client1 AND UAMP_SUPPORTS_ADD_REMOVE \<noteq> 0 \<and>
                sf AND UAMP_SUPPORTS_ADD_REMOVE = 0
        then (Failure ERROR_ADD_REMOVE_UNSUPPORTED, True, client1, w6)
        else case socketWrite w6 [SUPPORTED_VERSION] of
        (r7, w7) \<Rightarrow>
        if r7 \<noteq> Success then (r7, False, client1, w7)
        else case socketRead w7 1 of
        (r8, bs, w8) \<Rightarrow>
        if r8 \<noteq> Success then (r8, False, client1, w8)
        else if hd bs = 0 then (Failure ERROR_SERVER_REJECTED_HANDSHAKE, False, client1, w8)
        else if hd bs \<noteq> SUPPORTED_VERSION
        then (Failure ERROR_SERVER_CLIENT_VERSION_DISAGREE, False, client1, w8)
        else (Success, False, client1, w8))"
proof -
  have inc1: "incoming w1 = [i0, i1, i2, i3, ver, f0, f1, f2, f3] @ rest"
    using wr inc by (auto simp: socketWrite_eq split: option.splits if_splits)
  note ex = handshake_hello[OF hello wr] handshake_reads[OF inc1]
  show ?thesis
    unfolding handshake_body_def
    by (simp only: ok ex if_False prod.case ret.simps simp_thms Let_def
        uampClient.simps uampClient.update_convs)
qed


lemma socketWrite_sent:
  "socketWrite w bs = (Success, w1) \<Longrightarrow> sent w1 = sent w @ bs \<and> incoming w1 = incoming w"
  by (auto simp: socketWrite_eq split: option.splits if_splits)

text \<open>
  Claim C8. Once the hello messages are exchanged, \<^verbatim>\<open>performHandshake\<close> refuses the
  server for one of seven reasons, tested in this order: the role tag is not the expected
  one (\<open>ERROR_UAMP_CLIENT_MVISP_SERVER\<close>, \<open>ERROR_MVISP_CLIENT_UAMP_SERVER\<close> or
  \<open>ERROR_SERVER_UNKNOWN_HANDSHAKE\<close>), no version is shared (\<open>ERROR_NO_SHARED_VERSION\<close>),
  the server sends 3D data to a 2D client (\<open>ERROR_2D_CLIENT_3D_SERVER\<close>), or it sends
  additions and removals the client does not support (\<open>ERROR_ADD_REMOVE_UNSUPPORTED\<close>).
  In each case it writes the reject byte \<open>0x00\<close> to the socket before it returns. The result
  of that write is dropped: the world is the one the write leaves, the byte arrives unless
  the socket accepts no more, and the error returned is the handshake error in both cases.
\<close>

theorem performHandshake_reject_on_role_tag:
  assumes ok: "NOT (UAMP_SUPPORTS_3D OR UAMP_SUPPORTS_ADD_REMOVE) AND sf = 0"
    and hello: "hello = (if isUAMP then tag_UAMP else tag_MVIS) @ [SUPPORTED_VERSION] @ be32 sf"
    and wr: "socketWrite w hello = (Success, w1)"
    and inc: "incoming w = ident @ [ver] @ feats @ rest"
    and len: "length ident = 4" "length feats = 4"
    and refused: "refusal =
       (if isUAMP \<and> ident = tag_MVIS then Some ERROR_UAMP_CLIENT_MVISP_SERVER
        else if \<not> isUAMP \<and> ident = tag_UAMP then Some ERROR_MVISP_CLIENT_UAMP_SERVER
        else if ident \<noteq> (if isUAMP then tag_UAMP else tag_MVIS)
        then Some ERROR_SERVER_UNKNOWN_HANDSHAKE
        else if ver AND SUPPORTED_VERSION = 0 then Some ERROR_NO_SHARED_VERSION
        else if un_be32 feats AND UAMP_SUPPORTS_3D \<noteq> 0 \<and> sf AND UAMP_SUPPORTS_3D = 0
        then Some ERROR_2D_CLIENT_3D_SERVER
        else if un_be32 feats AND UAMP_SUPPORTS_ADD_REMOVE \<noteq> 0 \<and>
                sf AND UAMP_SUPPORTS_ADD_REMOVE = 0
        then Some ERROR_ADD_REMOVE_UNSUPPORTED
        else None)"
  shows "(refusal = Some e \<longrightarrow>
       performHandshake c w isUAMP sf =
         (Failure e,
          c\<lparr>commBuf := \<lparr>total = 9, passed = 9, buffer = []\<rparr>, serverFeatures := un_be32 feats\<rparr>,
          snd (socketWrite (w1\<lparr>incoming := rest\<rparr>) [0x00])) \<and>
       sent (snd (socketWrite (w1\<lparr>incoming := rest\<rparr>) [0x00])) =
         sent w @ hello @ (if write_room w1 = Some 0 then [] else [0x00]) \<and>
       (fst (socketWrite (w1\<lparr>incoming := rest\<rparr>) [0x00]) = Success) = (write_room w1 \<noteq> Some 0)) \<and>
     (refusal = None \<longrightarrow>
       performHandshake c w isUAMP sf =
         (case socketWrite (w1\<lparr>incoming := rest\<rparr>) [SUPPORTED_VERSION] of
            (r7, w7) \<Rightarrow>
              let c1 = c\<lparr>commBuf := \<lparr>total = 9, passed = 9, buffer = []\<rparr>,
                         serverFeatures := un_be32 feats\<rparr>
              in if r7 \<noteq> Success then (r7, c1, w7)
                 else (case socketRead w7 1 of
                         (r8, bs, w8) \<Rightarrow>
                           if r8 \<noteq> Success then (r8, c1, w8)
                           else if hd bs = 0 then (Failure ERROR_SERVER_REJECTED_HANDSHAKE, c1, w8)
                           else if hd bs \<noteq> SUPPORTED_VERSION
                           then (Failure ERROR_SERVER_CLIENT_VERSION_DISAGREE, c1, w8)
                           else (Success, c1, w8))))"
proof -
  obtain i0 i1 i2 i3 where ident: "ident = [i0, i1, i2, i3]" using len(1) by (rule length4E)
  obtain f0 f1 f2 f3 where feats: "feats = [f0, f1, f2, f3]" using len(2) by (rule length4E)
  have inc': "incoming w = [i0, i1, i2, i3, ver, f0, f1, f2, f3] @ rest"
    using inc ident feats by simp
  define c1 where "c1 = c\<lparr>commBuf := \<lparr>total = 9, passed = 9, buffer = []\<rparr>,
      serverFeatures := un_be32 feats\<rparr>"
  define w6 where "w6 = w1\<lparr>incoming := rest\<rparr>"
  have sf1: "serverFeatures c1 = un_be32 feats" by (simp add: c1_def)
  note ex = handshake_body_exchanged[OF ok hello wr inc', of c, unfolded Let_def,
      folded ident feats, folded c1_def w6_def, unfolded sf1]
  have some: "handshake_body c w isUAMP sf = (Failure e, True, c1, w6)" if "refusal = Some e"
    using that unfolding ex refused by (auto split: if_splits)
  have none: "handshake_body c w isUAMP sf =
      (case socketWrite w6 [SUPPORTED_VERSION] of
        (r7, w7) \<Rightarrow>
        if r7 \<noteq> Success then (r7, False, c1, w7)
        else case socketRead w7 1 of
        (r8, bs, w8) \<Rightarrow>
        if r8 \<noteq> Success then (r8, False, c1, w8)
        else if hd bs = 0 then (Failure ERROR_SERVER_REJECTED_HANDSHAKE, False, c1, w8)
        else if hd bs \<noteq> SUPPORTED_VERSION
        then (Failure ERROR_SERVER_CLIENT_VERSION_DISAGREE, False, c1, w8)
        else (Success, False, c1, w8))" if "refusal = None"
    using that unfolding ex refused by (auto split: if_splits)
  have s: "sent w1 = sent w @ hello" using socketWrite_sent[OF wr] by simp
  have one: "performHandshake c w isUAMP sf = (Failure e, c1, snd (socketWrite w6 [0x00]))"
    if "refusal = Some e"
    by (simp add: performHandshake_def some[OF that])
  have two: "sent (snd (socketWrite w6 [0x00])) =
       sent w @ hello @ (if write_room w1 = Some 0 then [] else [0x00])"
    using s by (auto simp: w6_def socketWrite_eq split: option.splits)
  have three: "(fst (socketWrite w6 [0x00]) = Success) = (write_room w1 \<noteq> Some 0)"
    by (auto simp: w6_def socketWrite_eq split: option.splits)
  have four: "performHandshake c w isUAMP sf =
         (case socketWrite w6 [SUPPORTED_VERSION] of
            (r7, w7) \<Rightarrow>
              if r7 \<noteq> Success then (r7, c1, w7)
              else (case socketRead w7 1 of
                      (r8, bs, w8) \<Rightarrow>
                        if r8 \<noteq> Success then (r8, c1, w8)
                        else if hd bs = 0 then (Failure ERROR_SERVER_REJECTED_HANDSHAKE, c1, w8)
                        else if hd bs \<noteq> SUPPORTED_VERSION
                        then (Failure ERROR_SERVER_CLIENT_VERSION_DISAGREE, c1, w8)
                        else (Success, c1, w8)))"
    if "refusal = None"
    by (simp add: performHandshake_def none[OF that] split: prod.splits)
  show ?thesis
    using one two three four unfolding c1_def w6_def Let_def by (simp split: prod.splits)
qed

theorem performHandshake_reject_on_role_tag_witness:
  "NOT (UAMP_SUPPORTS_3D OR UAMP_SUPPORTS_ADD_REMOVE) AND (0::u32) = 0 \<and>
   socketWrite (example_handshake_world (Some 9)) (tag_UAMP @ [SUPPORTED_VERSION] @ be32 0) =
     (Success, (example_handshake_world (Some 0))\<lparr>sent := tag_UAMP @ [0x80, 0, 0, 0, 0]\<rparr>) \<and>
   incoming (example_handshake_world (Some 9)) = tag_MVIS @ [0x80] @ [0, 0, 0, 0] @ [] \<and>
   tag_MVIS \<noteq> tag_UAMP \<and>
   performHandshake (example_client 0) (example_handshake_world (Some 9)) True 0 =
     (Failure ERROR_UAMP_CLIENT_MVISP_SERVER,
      (example_client 0)\<lparr>commBuf := \<lparr>total = 9, passed = 9, buffer = []\<rparr>\<rparr>,
      example_world\<lparr>sent := tag_UAMP @ [0x80, 0, 0, 0, 0], write_room := Some 0\<rparr>) \<and>
   fst (socketWrite
          (example_world\<lparr>sent := tag_UAMP @ [0x80, 0, 0, 0, 0], write_room := Some 0\<rparr>) [0x00])
     = Failure ERROR_SOCKET_WRITE \<and>
   socketWrite (example_feature_world [0x80, 0x80, 0, 0, 0])
       (tag_UAMP @ [SUPPORTED_VERSION] @ be32 0) =
     (Success, (example_feature_world [0x80, 0x80, 0, 0, 0])\<lparr>sent := tag_UAMP @ [0x80, 0, 0, 0, 0]\<rparr>) \<and>
   performHandshake (example_client 0) (example_feature_world [0x80, 0x80, 0, 0, 0]) True 0 =
     (Failure ERROR_2D_CLIENT_3D_SERVER,
      (example_client 0)\<lparr>commBuf := \<lparr>total = 9, passed = 9, buffer = []\<rparr>,
                          serverFeatures := 0x80000000\<rparr>,
      example_world\<lparr>sent := tag_UAMP @ [0x80, 0, 0, 0, 0, 0]\<rparr>) \<and>
   performHandshake (example_client 0) (example_feature_world [0x01, 0, 0, 0, 0]) True 0 =
     (Failure ERROR_NO_SHARED_VERSION,
      (example_client 0)\<lparr>commBuf := \<lparr>total = 9, passed = 9, buffer = []\<rparr>\<rparr>,
      example_world\<lparr>sent := tag_UAMP @ [0x80, 0, 0, 0, 0, 0]\<rparr>)"
proof -
  have ok: "NOT (UAMP_SUPPORTS_3D OR UAMP_SUPPORTS_ADD_REMOVE) AND (0::u32) = 0" by simp
  have hello: "tag_UAMP @ [SUPPORTED_VERSION] @ be32 0 =
      (if True then tag_UAMP else tag_MVIS) @ [SUPPORTED_VERSION] @ be32 0" by simp
  have wr: "socketWrite (example_handshake_world (Some 9)) (tag_UAMP @ [SUPPORTED_VERSION] @ be32 0) =
     (Success, (example_handshake_world (Some 0))\<lparr>sent := tag_UAMP @ [0x80, 0, 0, 0, 0]\<rparr>)"
    by (simp add: socketWrite_eq example_handshake_world_def example_world_def tag_UAMP_def
        SUPPORTED_VERSION_def be32_def)
  have inc: "incoming (example_handshake_world (Some 9)) = tag_MVIS @ [0x80] @ [0, 0, 0, 0] @ []"
    by (simp add: example_handshake_world_def)
  have len: "length tag_MVIS = 4" "length [0::u8, 0, 0, 0] = 4" by (simp_all add: tag_MVIS_def)
  have mismatch: "tag_MVIS \<noteq> tag_UAMP"
    by (simp add: tag_MVIS_def tag_UAMP_def)
  have e: "(example_handshake_world (Some 0))\<lparr>sent := tag_UAMP @ [0x80, 0, 0, 0, 0], incoming := []\<rparr>
      = example_world\<lparr>sent := tag_UAMP @ [0x80, 0, 0, 0, 0], write_room := Some 0\<rparr>"
    by (simp add: example_handshake_world_def example_world_def)
  have sw: "socketWrite (example_world\<lparr>sent := tag_UAMP @ [0x80, 0, 0, 0, 0], write_room := Some 0\<rparr>)
      [0x00] = (Failure ERROR_SOCKET_WRITE,
        example_world\<lparr>sent := tag_UAMP @ [0x80, 0, 0, 0, 0], write_room := Some 0\<rparr>)"
    by (simp add: socketWrite_eq example_world_def)
  have role: "performHandshake (example_client 0) (example_handshake_world (Some 9)) True 0 =
     (Failure ERROR_UAMP_CLIENT_MVISP_SERVER,
      (example_client 0)\<lparr>commBuf := \<lparr>total = 9, passed = 9, buffer = []\<rparr>\<rparr>,
      example_world\<lparr>sent := tag_UAMP @ [0x80, 0, 0, 0, 0], write_room := Some 0\<rparr>)"
    using performHandshake_reject_on_role_tag [OF ok hello wr inc len refl,
        where e = ERROR_UAMP_CLIENT_MVISP_SERVER and c = "example_client 0"]
    by (simp add: e sw example_client_def)
  have wr2: "socketWrite (example_feature_world bs) (tag_UAMP @ [SUPPORTED_VERSION] @ be32 0) =
     (Success, (example_feature_world bs)\<lparr>sent := tag_UAMP @ [0x80, 0, 0, 0, 0]\<rparr>)" for bs
    by (simp add: socketWrite_eq example_feature_world_def example_world_def tag_UAMP_def
        SUPPORTED_VERSION_def be32_def)
  have inc2: "incoming (example_feature_world [v, a, b, c, d]) = tag_UAMP @ [v] @ [a, b, c, d] @ []"
    for v a b c d
    by (simp add: example_feature_world_def)
  have len2: "length tag_UAMP = 4" "length [a, b, c, d] = 4" for a b c d :: u8
    by (simp_all add: tag_UAMP_def)
  have sw2: "socketWrite ((example_feature_world bs)\<lparr>sent := tag_UAMP @ [0x80, 0, 0, 0, 0],
                 incoming := []\<rparr>) [0x00] =
      (Success, example_world\<lparr>sent := tag_UAMP @ [0x80, 0, 0, 0, 0, 0]\<rparr>)" for bs
    by (simp add: socketWrite_eq example_feature_world_def example_world_def)
  have feature: "performHandshake (example_client 0) (example_feature_world [0x80, 0x80, 0, 0, 0])
        True 0 =
     (Failure ERROR_2D_CLIENT_3D_SERVER,
      (example_client 0)\<lparr>commBuf := \<lparr>total = 9, passed = 9, buffer = []\<rparr>,
                          serverFeatures := 0x80000000\<rparr>,
      example_world\<lparr>sent := tag_UAMP @ [0x80, 0, 0, 0, 0, 0]\<rparr>)"
    using performHandshake_reject_on_role_tag [OF ok hello wr2 inc2 len2 refl,
        where e = ERROR_2D_CLIENT_3D_SERVER and c = "example_client 0"]
    by (simp add: sw2 mismatch[symmetric] SUPPORTED_VERSION_def UAMP_SUPPORTS_3D_def)
  have version: "performHandshake (example_client 0) (example_feature_world [0x01, 0, 0, 0, 0])
        True 0 =
     (Failure ERROR_NO_SHARED_VERSION,
      (example_client 0)\<lparr>commBuf := \<lparr>total = 9, passed = 9, buffer = []\<rparr>\<rparr>,
      example_world\<lparr>sent := tag_UAMP @ [0x80, 0, 0, 0, 0, 0]\<rparr>)"
    using performHandshake_reject_on_role_tag [OF ok hello wr2 inc2 len2 refl,
        where e = ERROR_NO_SHARED_VERSION and c = "example_client 0"]
    by (simp add: sw2 mismatch[symmetric] SUPPORTED_VERSION_def example_client_def)
  show ?thesis
    using ok wr inc mismatch role sw wr2 feature version by simp
qed

section \<open>The specification offered to an MVISP client\<close>



lemma connect_cleanup_fst [simp]: "fst (connect_cleanup res) = fst res"
  by (auto simp: connect_cleanup_def split: prod.splits)








section \<open>Flushing state changes and terminating\<close>

lemma length_be32 [simp]: "length (be32 v) = 4"
  by (simp add: be32_def)

lemma be32_not_Nil [simp]: "be32 v \<noteq> []"
  by (simp add: be32_def)

lemma length_change_bytes [simp]: "length (change_bytes ch) = 12"
  by (simp add: change_bytes_def)

lemma length_concat_change_bytes [simp]:
  "length (concat (map change_bytes chs)) = 12 * length chs"
  by (induction chs) simp_all

lemma socketWrite32_pending:
  assumes "length (buffer buf) + 4 < 2048" "passed buf + 4 < total buf" "total buf < 2 ^ 64"
  shows "socketWrite32 buf w v =
           (Success, buf\<lparr>buffer := buffer buf @ be32 v, passed := passed buf + 4\<rparr>, w)"
  unfolding socketWrite32_def
  using assms by (subst socketWriteRaw_pending) simp_all

lemma socketWrite32_flush:
  assumes "length (buffer buf) + 4 \<le> 2048" "passed buf + 4 = total buf" "total buf < 2 ^ 64"
  shows "socketWrite32 buf w v =
           (case socketWrite w (buffer buf @ be32 v) of
              (r, w') \<Rightarrow>
                if r \<noteq> Success
                then (r, buf\<lparr>buffer := buffer buf @ be32 v, passed := total buf\<rparr>, w')
                else (Success, buf\<lparr>buffer := [], passed := total buf\<rparr>, w'))"
  unfolding socketWrite32_def
  using assms by (subst socketWriteRaw_flush) simp_all

lemma write_changes_flush:
  assumes "chs \<noteq> []" "passed buf + 12 * length chs = total buf"
    "length (buffer buf) + 12 * length chs \<le> 2048" "total buf < 2 ^ 64"
  shows "write_changes buf w chs =
           (case socketWrite w (buffer buf @ concat (map change_bytes chs)) of
              (r, w') \<Rightarrow>
                if r \<noteq> Success
                then (r, buf\<lparr>buffer := buffer buf @ concat (map change_bytes chs),
                           passed := total buf\<rparr>, w')
                else (Success, buf\<lparr>buffer := [], passed := total buf\<rparr>, w'))"
  using assms
proof (induction chs arbitrary: buf)
  case Nil
  then show ?case by simp
next
  case (Cons ch rest)
  let ?b1 = "buf\<lparr>buffer := buffer buf @ be32 (st_agentID ch), passed := passed buf + 4\<rparr>"
  let ?b2 = "?b1\<lparr>buffer := buffer ?b1 @ be32 (st_time ch), passed := passed ?b1 + 4\<rparr>"
  have w1: "socketWrite32 buf w (st_agentID ch) = (Success, ?b1, w)"
    using Cons.prems by (intro socketWrite32_pending) simp_all
  have w2: "socketWrite32 ?b1 w (st_time ch) = (Success, ?b2, w)"
    using Cons.prems by (intro socketWrite32_pending) simp_all
  show ?case
  proof (cases "rest = []")
    case True
    have w3: "socketWrite32 ?b2 w (st_newState ch) =
        (case socketWrite w (buffer ?b2 @ be32 (st_newState ch)) of
              (r, w') \<Rightarrow>
                if r \<noteq> Success
                then (r, ?b2\<lparr>buffer := buffer ?b2 @ be32 (st_newState ch), passed := total ?b2\<rparr>, w')
                else (Success, ?b2\<lparr>buffer := [], passed := total ?b2\<rparr>, w'))"
      using Cons.prems True by (intro socketWrite32_flush) simp_all
    show ?thesis
      using True
      by (simp add: w1[simplified] w2[simplified] w3[simplified] change_bytes_def[of ch] split: prod.splits)
  next
    case False
    let ?b3 = "?b2\<lparr>buffer := buffer ?b2 @ be32 (st_newState ch), passed := passed ?b2 + 4\<rparr>"
    obtain r' rs where rest: "rest = r' # rs" using False by (cases rest) auto
    have w3: "socketWrite32 ?b2 w (st_newState ch) = (Success, ?b3, w)"
      using Cons.prems by (intro socketWrite32_pending) (simp_all add: rest)
    have ih: "write_changes ?b3 w rest =
           (case socketWrite w (buffer ?b3 @ concat (map change_bytes rest)) of
              (r, w') \<Rightarrow>
                if r \<noteq> Success
                then (r, ?b3\<lparr>buffer := buffer ?b3 @ concat (map change_bytes rest),
                           passed := total ?b3\<rparr>, w')
                else (Success, ?b3\<lparr>buffer := [], passed := total ?b3\<rparr>, w'))"
      using Cons.prems False by (intro Cons.IH) simp_all
    show ?thesis
      by (simp add: w1[simplified] w2[simplified] w3[simplified] ih[simplified] change_bytes_def[of ch] split: prod.splits)
  qed
qed


lemma flushStateChanges_eq:
  assumes n: "0 < numChanges c" "numChanges c \<le> 128" and len: "length (changes c) = 128"
  shows "flushStateChanges c w =
     (case socketWrite w (state_change_frame c) of
        (r, w') \<Rightarrow>
          if r \<noteq> Success
          then (r, c\<lparr>commBuf := \<lparr>total = 5 + 12 * nat (numChanges c),
                                  passed = 5 + 12 * nat (numChanges c),
                                  buffer = state_change_frame c\<rparr>\<rparr>, w')
          else (Success, c\<lparr>commBuf := \<lparr>total = 5 + 12 * nat (numChanges c),
                                       passed = 5 + 12 * nat (numChanges c),
                                       buffer = []\<rparr>,
                           numChanges := 0\<rparr>, w'))"
proof -
  define k where "k = nat (numChanges c)"
  have k: "0 < k" "k \<le> 128" "numChanges c = int k" using n by (auto simp: k_def)
  have m: "int k mod 18446744073709551616 = int k"
    using k by (intro mod_pos_pos_trivial) auto
  define T where "T = 5 + 12 * k"
  have tl: "u64 (5 + 12 * nat (numChanges c mod 2 ^ 64)) = T"
    using k by (simp add: m T_def u64_def)
  let ?chs = "take k (changes c)"
  have chs: "length ?chs = k" "?chs \<noteq> []" using k len by auto
  let ?b0 = "beginWrite (commBuf c) T"
  let ?b1 = "\<lparr>total = T, passed = 1, buffer = [0x02]\<rparr>"
  let ?b2 = "\<lparr>total = T, passed = 5, buffer = [0x02] @ be32 (word_of_int (numChanges c))\<rparr>"
  have w1: "socketWrite8 ?b0 w 0x02 = (Success, ?b1, w)"
    unfolding socketWrite8_def
    using k by (subst socketWriteRaw_pending) (simp_all add: beginWrite_def T_def)
  have w2: "socketWrite32 ?b1 w (word_of_int (numChanges c)) = (Success, ?b2, w)"
    using k by (subst socketWrite32_pending) (simp_all add: T_def)
  have w3: "write_changes ?b2 w ?chs =
           (case socketWrite w (buffer ?b2 @ concat (map change_bytes ?chs)) of
              (r, w') \<Rightarrow>
                if r \<noteq> Success
                then (r, ?b2\<lparr>buffer := buffer ?b2 @ concat (map change_bytes ?chs),
                           passed := total ?b2\<rparr>, w')
                else (Success, ?b2\<lparr>buffer := [], passed := total ?b2\<rparr>, w'))"
    using k chs by (intro write_changes_flush) (simp_all add: T_def)
  have g: "\<not> numChanges c > int (length (changes c))" using n len by simp
  have fr: "buffer ?b2 @ concat (map change_bytes ?chs) = state_change_frame c"
    by (simp add: state_change_frame_def k_def)
  obtain r w' where sw: "socketWrite w (state_change_frame c) = (r, w')"
    by (cases "socketWrite w (state_change_frame c)")
  have w3': "write_changes ?b2 w ?chs =
      (if r \<noteq> Success then (r, \<lparr>total = T, passed = T, buffer = state_change_frame c\<rparr>, w')
       else (Success, \<lparr>total = T, passed = T, buffer = []\<rparr>, w'))"
    unfolding w3 fr sw by simp
  have "flushStateChanges c w =
      (if r \<noteq> Success
       then (r, c\<lparr>commBuf := \<lparr>total = T, passed = T, buffer = state_change_frame c\<rparr>\<rparr>, w')
       else (Success, c\<lparr>commBuf := \<lparr>total = T, passed = T, buffer = []\<rparr>,
                        numChanges := 0\<rparr>, w'))"
    unfolding flushStateChanges_def Let_def tl
    by (simp add: g w1[simplified] w2[simplified] w3'[simplified] k_def[symmetric])
  then show ?thesis
    by (simp add: sw T_def k_def)
qed

lemma terminate_frame_write:
  "socketWrite8 (beginWrite buf 5) w 0x00 =
     (Success, \<lparr>total = 5, passed = 1, buffer = [0x00]\<rparr>, w)"
  "socketWrite32 \<lparr>total = 5, passed = 1, buffer = [0x00]\<rparr> w 0 =
     (case socketWrite w terminate_frame of
        (r, w') \<Rightarrow>
          if r \<noteq> Success then (r, \<lparr>total = 5, passed = 5, buffer = terminate_frame\<rparr>, w')
          else (Success, \<lparr>total = 5, passed = 5, buffer = []\<rparr>, w'))"
proof -
  show "socketWrite8 (beginWrite buf 5) w 0x00 =
     (Success, \<lparr>total = 5, passed = 1, buffer = [0x00]\<rparr>, w)"
    unfolding socketWrite8_def
    by (subst socketWriteRaw_pending) (simp_all add: beginWrite_def)
  show "socketWrite32 \<lparr>total = 5, passed = 1, buffer = [0x00]\<rparr> w 0 =
     (case socketWrite w terminate_frame of
        (r, w') \<Rightarrow>
          if r \<noteq> Success then (r, \<lparr>total = 5, passed = 5, buffer = terminate_frame\<rparr>, w')
          else (Success, \<lparr>total = 5, passed = 5, buffer = []\<rparr>, w'))"
    by (subst socketWrite32_flush) (simp_all add: terminate_frame_def split: prod.splits)
qed

lemma socketWrite_append:
  "socketWrite w (xs @ ys) = (Success, w') \<Longrightarrow>
   \<exists>w1. socketWrite w xs = (Success, w1) \<and> socketWrite w1 ys = (Success, w')"
  by (auto simp: socketWrite_eq split: option.splits if_splits)

lemma socketWrite_result:
  "fst (socketWrite w bs) = Success \<or> fst (socketWrite w bs) = Failure ERROR_SOCKET_WRITE"
  by (auto simp: socketWrite_eq split: option.splits)

lemma uampTerminate_closed:
  "fd c < 0 \<Longrightarrow> agents c = None \<Longrightarrow> uampTerminate c w = (Success, c, w)"
  by (simp add: uampTerminate_def uampTerminate_body_def)

lemma connect_cleanup_failure:
  "connect_cleanup res = (Failure e, c, w) \<Longrightarrow> fd c < 0 \<and> agents c = None"
  by (auto simp: connect_cleanup_def split: prod.splits if_splits)

lemma socketWrite_Nil: "socketWrite w [] = (Success, w)"
  by (simp add: socketWrite.simps)

lemma uampTerminate_body_cases:
  assumes wf: "0 \<le> numChanges c" "numChanges c \<le> 128" "length (changes c) = 128"
    and pos: "0 \<le> fd c"
    and sw1: "socketWrite w (if numChanges c \<noteq> 0 then state_change_frame c else []) = (r1, w1)"
    and sw2: "socketWrite w1 terminate_frame = (r2, w2)"
  shows "uampTerminate_body c w =
        (if r1 \<noteq> Success
         then (Failure ERROR_SOCKET_WRITE,
               c\<lparr>commBuf := \<lparr>total = 5 + 12 * nat (numChanges c),
                               passed = 5 + 12 * nat (numChanges c),
                               buffer = state_change_frame c\<rparr>\<rparr>, w1)
         else if r2 \<noteq> Success
         then (Failure ERROR_SOCKET_WRITE,
               c\<lparr>commBuf := \<lparr>total = 5, passed = 5, buffer = terminate_frame\<rparr>,
                  numChanges := 0\<rparr>, w2)
         else (Success, c\<lparr>commBuf := \<lparr>total = 5, passed = 5, buffer = []\<rparr>, numChanges := 0\<rparr>,
               w2))"
proof -
  have r1: "r1 = Success \<or> r1 = Failure ERROR_SOCKET_WRITE"
    using socketWrite_result[of w "if numChanges c \<noteq> 0 then state_change_frame c else []"] sw1
    by simp
  have r2: "r2 = Success \<or> r2 = Failure ERROR_SOCKET_WRITE"
    using socketWrite_result[of w1 terminate_frame] sw2 by simp
  show ?thesis
  proof (cases "numChanges c = 0")
    case True
    have a: "r1 = Success" "w1 = w" using sw1 True by (simp_all add: socketWrite_Nil)
    have c0: "c\<lparr>commBuf := b, numChanges := 0\<rparr> = c\<lparr>commBuf := b\<rparr>" for b
      using True by simp
    show ?thesis
      using True pos r2 sw2 a
      by (auto simp: uampTerminate_body_def terminate_frame_write terminate_frame_write[simplified] c0)
  next
    case False
    have n: "0 < numChanges c" using False wf by simp
    have sw1': "socketWrite w (state_change_frame c) = (r1, w1)" using sw1 False by simp
    note fl = flushStateChanges_eq[OF n wf(2,3), of w, unfolded sw1' prod.case]
    show ?thesis
    proof (cases "r1 = Success")
      case True
      show ?thesis
        using False pos True r2
        by (auto simp: uampTerminate_body_def fl sw2 terminate_frame_write terminate_frame_write[simplified])
    next
      case r1f: False
      show ?thesis
        using False pos r1f r1
        by (auto simp: uampTerminate_body_def fl)
    qed
  qed
qed

text \<open>
  Claim C6. On a session with an open descriptor, when the socket accepts the bytes,
  \<^verbatim>\<open>uampTerminate\<close> first writes the state-change message if changes are buffered,
  then the termination message, closes the socket, releases the agents and returns 0.
  Whatever the first call returned, it leaves no open descriptor (an open one is closed and
  set to \<open>- 1\<close>, a negative one is left as it is) and no agents, and a second call returns
  0 and leaves the session and the world as they are: it writes nothing. The same holds
  directly after \<^verbatim>\<open>uampInitialize\<close> and after a connect that failed.
\<close>

theorem uampTerminate_flushes_and_is_idempotent:
  "(0 \<le> fd c \<and> 0 \<le> numChanges c \<and> numChanges c \<le> 128 \<and> length (changes c) = 128 \<and>
    socketWrite w ((if numChanges c \<noteq> 0 then state_change_frame c else []) @ terminate_frame)
      = (Success, w') \<longrightarrow>
      uampTerminate c w =
        (Success,
         c\<lparr>commBuf := \<lparr>total = 5, passed = 5, buffer = []\<rparr>, numChanges := 0,
            fd := - 1, agents := None\<rparr>,
         os_close w') \<and>
      sent w' = sent w @ (if numChanges c \<noteq> 0 then state_change_frame c else []) @ terminate_frame)
   \<and>
   (0 \<le> numChanges c \<and> numChanges c \<le> 128 \<and> length (changes c) = 128 \<and>
    uampTerminate c w = (r1, c1, w1) \<longrightarrow>
      (r1 = Success \<or> r1 = Failure ERROR_SOCKET_WRITE) \<and>
      fd c1 = (if 0 \<le> fd c then - 1 else fd c) \<and> agents c1 = None \<and>
      uampTerminate c1 w1 = (Success, c1, w1))
   \<and>
   uampTerminate (uampInitialize c) w = (Success, uampInitialize c, w)
   \<and>
   (uampConnect c w port na secs seed sf = (Failure e, c2, w2) \<longrightarrow>
      uampTerminate c2 w2 = (Success, c2, w2))
   \<and>
   (mvispConnect c w u port np tp names ns accept sf = ((Failure e', c3, w3), u') \<longrightarrow>
      uampTerminate c3 w3 = (Success, c3, w3))"
proof (intro conjI impI)
  assume h: "0 \<le> fd c \<and> 0 \<le> numChanges c \<and> numChanges c \<le> 128 \<and> length (changes c) = 128 \<and>
    socketWrite w ((if numChanges c \<noteq> 0 then state_change_frame c else []) @ terminate_frame)
      = (Success, w')"
  then obtain wa where
    sw: "socketWrite w (if numChanges c \<noteq> 0 then state_change_frame c else []) = (Success, wa)"
        "socketWrite wa terminate_frame = (Success, w')"
    using socketWrite_append by blast
  have body: "uampTerminate_body c w =
      (Success, c\<lparr>commBuf := \<lparr>total = 5, passed = 5, buffer = []\<rparr>, numChanges := 0\<rparr>, w')"
    using uampTerminate_body_cases[OF _ _ _ _ sw] h by simp
  show "uampTerminate c w =
        (Success,
         c\<lparr>commBuf := \<lparr>total = 5, passed = 5, buffer = []\<rparr>, numChanges := 0,
            fd := - 1, agents := None\<rparr>,
         os_close w')"
    using h by (simp add: uampTerminate_def body)
  show "sent w' = sent w @ (if numChanges c \<noteq> 0 then state_change_frame c else []) @ terminate_frame"
    using h socketWrite_sent by blast
next
  assume h: "0 \<le> numChanges c \<and> numChanges c \<le> 128 \<and> length (changes c) = 128 \<and>
    uampTerminate c w = (r1, c1, w1)"
  have a: "(r1 = Success \<or> r1 = Failure ERROR_SOCKET_WRITE) \<and>
      fd c1 = (if 0 \<le> fd c then - 1 else fd c) \<and> agents c1 = None"
  proof (cases "0 \<le> fd c")
    case True
    obtain ra wa where sw1:
      "socketWrite w (if numChanges c \<noteq> 0 then state_change_frame c else []) = (ra, wa)"
      by (cases "socketWrite w (if numChanges c \<noteq> 0 then state_change_frame c else [])")
    obtain rb wb where sw2: "socketWrite wa terminate_frame = (rb, wb)"
      by (cases "socketWrite wa terminate_frame")
    note b = uampTerminate_body_cases[OF _ _ _ True sw1 sw2]
    show ?thesis
      using h b by (auto simp: uampTerminate_def split: if_splits)
  next
    case False
    then show ?thesis
      using h by (auto simp: uampTerminate_def uampTerminate_body_def)
  qed
  then show "r1 = Success \<or> r1 = Failure ERROR_SOCKET_WRITE"
    "fd c1 = (if 0 \<le> fd c then - 1 else fd c)" "agents c1 = None"
    by simp_all
  have "fd c1 < 0" using a by (simp split: if_splits)
  then show "uampTerminate c1 w1 = (Success, c1, w1)"
    using a by (simp add: uampTerminate_closed)
next
  show "uampTerminate (uampInitialize c) w = (Success, uampInitialize c, w)"
    by (rule uampTerminate_closed) (simp_all add: uampInitialize_def)
next
  assume "uampConnect c w port na secs seed sf = (Failure e, c2, w2)"
  then show "uampTerminate c2 w2 = (Success, c2, w2)"
    using connect_cleanup_failure uampTerminate_closed unfolding uampConnect_def by blast
next
  assume "mvispConnect c w u port np tp names ns accept sf = ((Failure e', c3, w3), u')"
  then have "\<exists>res. connect_cleanup res = (Failure e', c3, w3)"
    by (auto simp: mvispConnect_def split: prod.splits)
  then show "uampTerminate c3 w3 = (Success, c3, w3)"
    using connect_cleanup_failure uampTerminate_closed by blast
qed

lemma example_frame:
  "state_change_frame example_pending_client =
     [2, 0, 0, 0, 1, 0, 0, 0, 1, 0, 0, 1, 244, 0, 0, 0, 1]"
proof -
  have "(128::nat) = Suc 127" by simp
  then have r: "replicate 128 z = z # replicate 127 z" for z :: uampState
    by (simp only: replicate_Suc)
  show ?thesis
    by (simp add: state_change_frame_def example_pending_client_def example_client_def r
        change_bytes_def be32_def)
qed

lemma example_pending_wf:
  "0 \<le> fd example_pending_client" "0 \<le> numChanges example_pending_client"
  "numChanges example_pending_client \<le> 128" "length (changes example_pending_client) = 128"
  "numChanges example_pending_client \<noteq> 0"
  by (simp_all add: example_pending_client_def example_client_def)

theorem uampTerminate_flushes_and_is_idempotent_witness:
  "0 \<le> fd example_pending_client \<and> 0 \<le> numChanges example_pending_client \<and>
   numChanges example_pending_client \<le> 128 \<and> length (changes example_pending_client) = 128 \<and>
   socketWrite example_world
     ((if numChanges example_pending_client \<noteq> 0 then state_change_frame example_pending_client
       else []) @ terminate_frame) =
     (Success, example_world\<lparr>sent := [2, 0, 0, 0, 1, 0, 0, 0, 1, 0, 0, 1, 244, 0, 0, 0, 1,
                                       0, 0, 0, 0, 0]\<rparr>) \<and>
   uampTerminate example_pending_client example_world =
     (Success,
      example_pending_client\<lparr>commBuf := \<lparr>total = 5, passed = 5, buffer = []\<rparr>, numChanges := 0,
         fd := - 1, agents := None\<rparr>,
      example_world\<lparr>sent := [2, 0, 0, 0, 1, 0, 0, 0, 1, 0, 0, 1, 244, 0, 0, 0, 1, 0, 0, 0, 0, 0],
                    is_open := False\<rparr>) \<and>
   uampTerminate
     (example_pending_client\<lparr>commBuf := \<lparr>total = 5, passed = 5, buffer = []\<rparr>, numChanges := 0,
         fd := - 1, agents := None\<rparr>)
     (example_world\<lparr>sent := [2, 0, 0, 0, 1, 0, 0, 0, 1, 0, 0, 1, 244, 0, 0, 0, 1, 0, 0, 0, 0, 0],
                    is_open := False\<rparr>) =
     (Success,
      example_pending_client\<lparr>commBuf := \<lparr>total = 5, passed = 5, buffer = []\<rparr>, numChanges := 0,
         fd := - 1, agents := None\<rparr>,
      example_world\<lparr>sent := [2, 0, 0, 0, 1, 0, 0, 0, 1, 0, 0, 1, 244, 0, 0, 0, 1, 0, 0, 0, 0, 0],
                    is_open := False\<rparr>) \<and>
   uampConnect (example_client 0) example_world 7 0 (Finite 1) 0 0 =
     (Failure ERROR_INVALID_NUM_AGENTS, uampInitialize (example_client 0), example_world) \<and>
   uampTerminate (uampInitialize (example_client 0)) example_world =
     (Success, uampInitialize (example_client 0), example_world) \<and>
   uampTerminate ((example_client 0)\<lparr>fd := - 5\<rparr>) example_world =
     (Success, (example_client 0)\<lparr>fd := - 5\<rparr>, example_world) \<and>
   fd (fst (snd (uampTerminate ((example_client 0)\<lparr>fd := - 5\<rparr>) example_world))) = - 5"
proof -
  let ?w' = "example_world\<lparr>sent := [2, 0, 0, 0, 1, 0, 0, 0, 1, 0, 0, 1, 244, 0, 0, 0, 1,
                                       0, 0, 0, 0, 0]\<rparr>"
  have sw: "socketWrite example_world
     ((if numChanges example_pending_client \<noteq> 0 then state_change_frame example_pending_client
       else []) @ terminate_frame) = (Success, ?w')"
    by (simp add: example_pending_wf example_frame terminate_frame_def be32_def socketWrite_eq
        example_world_def)
  have uc: "uampConnect (example_client 0) example_world 7 0 (Finite 1) 0 0 =
     (Failure ERROR_INVALID_NUM_AGENTS, uampInitialize (example_client 0), example_world)"
    by (simp add: uampConnect_def uampConnect_body_def connect_cleanup_def uampInitialize_def)
  note t = uampTerminate_flushes_and_is_idempotent
      [where c = example_pending_client and w = example_world and w' = "?w'"]
  note t2 = uampTerminate_flushes_and_is_idempotent
      [where c = "example_client 0" and w = example_world and port = 7 and na = 0 and secs = "Finite 1"
         and seed = 0 and sf = 0 and e = ERROR_INVALID_NUM_AGENTS
         and ?c2.0 = "uampInitialize (example_client 0)" and ?w2.0 = example_world]
  have first: "uampTerminate example_pending_client example_world =
     (Success,
      example_pending_client\<lparr>commBuf := \<lparr>total = 5, passed = 5, buffer = []\<rparr>, numChanges := 0,
         fd := - 1, agents := None\<rparr>, os_close ?w')"
    using t[THEN conjunct1] example_pending_wf sw by simp
  have oc: "os_close ?w' =
      example_world\<lparr>sent := [2, 0, 0, 0, 1, 0, 0, 0, 1, 0, 0, 1, 244, 0, 0, 0, 1, 0, 0, 0, 0, 0],
                    is_open := False\<rparr>"
    by (simp add: os_close_def)
  have second: "uampTerminate
     (example_pending_client\<lparr>commBuf := \<lparr>total = 5, passed = 5, buffer = []\<rparr>, numChanges := 0,
         fd := - 1, agents := None\<rparr>) (os_close ?w') =
     (Success,
      example_pending_client\<lparr>commBuf := \<lparr>total = 5, passed = 5, buffer = []\<rparr>, numChanges := 0,
         fd := - 1, agents := None\<rparr>, os_close ?w')"
    using uampTerminate_flushes_and_is_idempotent
      [where c = example_pending_client and w = example_world and ?r1.0 = Success
        and ?c1.0 = "example_pending_client\<lparr>commBuf := \<lparr>total = 5, passed = 5, buffer = []\<rparr>,
         numChanges := 0, fd := - 1, agents := None\<rparr>" and ?w1.0 = "os_close ?w'",
       THEN conjunct2, THEN conjunct1]
      example_pending_wf first
    by simp
  have third: "uampTerminate (uampInitialize (example_client 0)) example_world =
     (Success, uampInitialize (example_client 0), example_world)"
    using t2[THEN conjunct2, THEN conjunct2, THEN conjunct2, THEN conjunct1] uc by simp
  have neg: "uampTerminate ((example_client 0)\<lparr>fd := - 5\<rparr>) example_world =
     (Success, (example_client 0)\<lparr>fd := - 5\<rparr>, example_world)"
    by (simp add: uampTerminate_def uampTerminate_body_def example_client_def)
  have fourth: "fd (fst (snd (uampTerminate ((example_client 0)\<lparr>fd := - 5\<rparr>) example_world)))
      = - 5"
    using uampTerminate_flushes_and_is_idempotent
      [where c = "(example_client 0)\<lparr>fd := - 5\<rparr>" and w = example_world and ?r1.0 = Success
        and ?c1.0 = "(example_client 0)\<lparr>fd := - 5\<rparr>" and ?w1.0 = example_world,
       THEN conjunct2, THEN conjunct1]
      neg
    by (simp add: example_client_def)
  show ?thesis
    using example_pending_wf sw first second third uc neg fourth unfolding oc by simp
qed

section \<open>Changing the state of an agent\<close>

text \<open>Integers below \<open>2\<^sup>5\<^sup>3\<close> are values of type \<^verbatim>\<open>double\<close>, and so is the example time.\<close>

lemma round_double_of_int:
  assumes "\<bar>n\<bar> < 2 ^ 53"
  shows "round_double (of_int n) = Finite (of_int n)"
proof (cases "n = 0")
  case True
  then show ?thesis by (simp add: round_double_def)
next
  case False
  define x :: real where "x = of_int n"
  have x0: "x \<noteq> 0" using False by (simp add: x_def)
  have x1: "1 \<le> \<bar>x\<bar>" using False by (simp add: x_def)
  have "\<bar>x\<bar> < 2 ^ 53"
  proof -
    have "real_of_int \<bar>n\<bar> < real_of_int (2 ^ 53)" using assms by (simp only: of_int_less_iff)
    then show ?thesis by (simp add: x_def)
  qed
  then have e1: "double_exponent x < 53" using double_exponent_le[of x 53] x0 by simp
  have "0 \<le> log 2 \<bar>x\<bar>" using x1 by simp
  then have e0: "0 \<le> double_exponent x" by (simp add: double_exponent_def)
  define j where "j = nat (52 - double_exponent x)"
  have j: "of_int (double_exponent x) - 52 = - real j" using e0 e1 by (simp add: j_def)
  have "double_ulp x = inverse (2 powr real j)"
    unfolding double_ulp_def j by (rule powr_minus)
  also have "(2::real) powr real j = 2 ^ j" by (rule powr_realpow) simp
  finally have u: "double_ulp x = 1 / 2 ^ j" by (simp only: inverse_eq_divide)
  have q: "x / (1 / 2 ^ j) = of_int (n * 2 ^ j)" by (simp add: x_def)
  have k: "round_half_even (x / (1 / 2 ^ j)) = n * 2 ^ j"
    unfolding q by (rule round_half_even_of_int)
  have v: "1 / 2 ^ j * real_of_int (n * 2 ^ j) = x" by (simp add: x_def)
  have "\<bar>x\<bar> < 2 ^ 1024"
  proof -
    have "(2::real) ^ 53 \<le> 2 ^ 1024" by simp
    with \<open>\<bar>x\<bar> < 2 ^ 53\<close> show ?thesis by linarith
  qed
  then have "round_double x = Finite x"
    unfolding round_double_def Let_def u k v using x0 by simp
  then show ?thesis by (simp add: x_def)
qed

lemma round_double_numeral [simp]:
  "numeral k < (2 ^ 53 :: int) \<Longrightarrow> round_double (numeral k) = Finite (numeral k)"
  using round_double_of_int[of "numeral k"] by simp



lemma double_ulp_m8:
  assumes "1 / 2 ^ 8 \<le> x" "x < 1 / 2 ^ 7"
  shows "double_ulp x = 1 / 2 ^ 60"
proof -
  have p8: "(2::real) powr (- 8) = 1 / 2 ^ 8" by (rule powr_neg_numeral)
  have p7: "(2::real) powr (- 7) = 1 / 2 ^ 7" by (rule powr_neg_numeral)
  have x: "\<bar>x\<bar> = x" using assms(1) by (smt (verit) divide_nonneg_nonneg zero_le_power)
  have "double_exponent x = - 8"
  proof (rule double_exponent_eq)
    have "(2::real) powr of_int (- 8) = 1 / 2 ^ 8" using p8 by simp
    then show "2 powr of_int (- 8) \<le> \<bar>x\<bar>" using assms x by simp
    have "(2::real) powr of_int (- 8 + 1) = 1 / 2 ^ 7" using p7 by simp
    then show "\<bar>x\<bar> < 2 powr of_int (- 8 + 1)" using assms x by simp
    show "- 1022 \<le> (- 8 :: int)" by simp
  qed
  then have "double_ulp x = 2 powr (- 60)" by (simp add: double_ulp_def)
  then show ?thesis by (simp only: powr_neg_numeral)
qed

lemma example_time_double: "is_double example_time"
proof -
  have u: "double_ulp example_time = 1 / 2 ^ 60"
    by (rule double_ulp_m8) (simp_all add: example_time_def)
  have k: "round_half_even (example_time / (1 / 2 ^ 60)) = 5188146770730811"
    by (simp add: round_half_even_def Let_def example_time_def)
  have z: "example_time \<noteq> 0" by (simp add: example_time_def)
  show ?thesis
    unfolding is_double_def round_double_def Let_def u k using z
    by (simp add: example_time_def)
qed

lemma example_time_product: "round_double (example_time * 1000) = Finite (9 / 2)"
  using example_product by (simp add: example_time_def)

lemma example_time_range: "0 \<le> example_time" "example_time \<le> UAMP_MAX_TIME"
  "round (example_time * 1000) = 4"
  by (simp_all add: example_time_def UAMP_MAX_TIME_def round_def)

lemma example_full_frame:
  "length (state_change_frame c) = 5 + 12 * min (nat (numChanges c)) (length (changes c))"
  "take 5 (state_change_frame c) = 2 # be32 (word_of_int (numChanges c))"
  by (simp_all add: state_change_frame_def)

text \<open>
  Claim C7. \<^verbatim>\<open>uampChangeState\<close> does nothing and returns 0 on a UAMP session
  (\<open>numStates = 0\<close>). On an MVISP session it returns \<open>ERROR_INVALID_CHANGE_TIME\<close> when the
  time is below 0 or above \<^verbatim>\<open>UAMP_MAX_TIME\<close> (for a \<^verbatim>\<open>double\<close> that is: above
  4294967.295); otherwise the time is converted to milliseconds by \<^verbatim>\<open>llround\<close> of the
  \<^verbatim>\<open>double\<close> product with 1000, which for every finite admissible time is within
  \<open>2\<^sup>-\<^sup>2\<^sup>2\<close> of the exact product, rounds to a value that fits 32 bits, and is stored
  without wrap-around. Then the agent id is asserted, and the call returns
  \<open>ERROR_INVALID_CHANGE_TIME\<close> when the milliseconds exceed the time limit and
  \<open>ERROR_INVALID_CHANGE_STATE\<close> when the state is negative or not below \<open>numStates\<close>;
  otherwise the triple is stored in the next free slot of the buffer of 128 state changes.
  When this fills the buffer, the message with all 128 changes is written to the socket and
  the buffer is empty again, unless the write fails.
\<close>

theorem uampChangeState_validates_then_buffers:
  "(numStates c = 0 \<longrightarrow> uampChangeState c w a t s = (Success, c, w)) \<and>
   (\<forall>r. t = Finite r \<and> 0 \<le> r \<and> r \<le> UAMP_MAX_TIME \<longrightarrow>
      (\<exists>p. dmul t (Finite 1000) = Finite p \<and> \<bar>p - r * 1000\<bar> \<le> 1 / 2 ^ 22 \<and>
           llround w (dmul t (Finite 1000)) = round p \<and>
           uint (word_of_int (llround w (dmul t (Finite 1000))) :: u32) = round p)) \<and>
   (\<forall>r. is_double r \<longrightarrow> (UAMP_MAX_TIME < r) = (4294967.295 < r)) \<and>
   (numStates c \<noteq> 0 \<and> 0 \<le> numChanges c \<and> numChanges c < 128 \<and> length (changes c) = 128 \<longrightarrow>
    uampChangeState c w a t s =
     (if dless t (Finite 0) \<or> dless (Finite UAMP_MAX_TIME) t
      then (Failure ERROR_INVALID_CHANGE_TIME, c, w)
      else if \<not> (0 \<le> a \<and> a < uint (numAgents c)) then (Aborted, c, w)
      else if (word_of_int (llround w (dmul t (Finite 1000))) :: u32) > timeLimit c
      then (Failure ERROR_INVALID_CHANGE_TIME, c, w)
      else if s < 0 \<or> s \<ge> uint (numStates c) then (Failure ERROR_INVALID_CHANGE_STATE, c, w)
      else
        (let c1 = c\<lparr>changes := (changes c)[nat (numChanges c) :=
                      \<lparr>st_agentID = word_of_int a,
                       st_time = word_of_int (llround w (dmul t (Finite 1000))),
                       st_newState = word_of_int s\<rparr>],
                    numChanges := numChanges c + 1\<rparr>
         in if numChanges c + 1 = 128 then
              (case socketWrite w (state_change_frame c1) of
                 (r, w') \<Rightarrow>
                   if r \<noteq> Success
                   then (r, c1\<lparr>commBuf := \<lparr>total = 1541, passed = 1541,
                                           buffer = state_change_frame c1\<rparr>\<rparr>, w')
                   else (Success, c1\<lparr>commBuf := \<lparr>total = 1541, passed = 1541, buffer = []\<rparr>,
                                    numChanges := 0\<rparr>, w'))
            else (Success, c1, w))))"
proof (intro conjI impI allI)
  show "uampChangeState c w a t s = (Success, c, w)" if "numStates c = 0"
    using that by (simp add: uampChangeState_def)
next
  fix r
  assume h: "t = Finite r \<and> 0 \<le> r \<and> r \<le> UAMP_MAX_TIME"
  then obtain p where p: "round_double (r * 1000) = Finite p" "\<bar>p - r * 1000\<bar> \<le> 1 / 2 ^ 22"
    "0 \<le> round_half_away p" "round_half_away p \<le> 4294967295" "round_half_away p = round p"
    using send_time_range[of r] by blast
  have l: "llround w (dmul t (Finite 1000)) = round p"
    using h p by (simp add: llround_def)
  have "uint (word_of_int (round p) :: u32) = round p"
    using p(3,4,5) by (simp add: uint_word_of_int take_bit_int_eq_self)
  then show "\<exists>p. dmul t (Finite 1000) = Finite p \<and> \<bar>p - r * 1000\<bar> \<le> 1 / 2 ^ 22 \<and>
           llround w (dmul t (Finite 1000)) = round p \<and>
           uint (word_of_int (llround w (dmul t (Finite 1000))) :: u32) = round p"
    using h p l by auto
next
  fix r
  assume "is_double r"
  then show "(UAMP_MAX_TIME < r) = (4294967.295 < r)" by (rule UAMP_MAX_TIME_gap)
next
  assume "numStates c \<noteq> 0 \<and> 0 \<le> numChanges c \<and> numChanges c < 128 \<and> length (changes c) = 128"
  then have h: "numStates c \<noteq> 0" "0 \<le> numChanges c" "numChanges c < 128"
    "length (changes c) = 128"
    by simp_all
  define ms where "ms = (word_of_int (llround w (dmul t (Finite 1000))) :: u32)"
  define c1 where "c1 = c\<lparr>changes := (changes c)[nat (numChanges c) :=
                      \<lparr>st_agentID = word_of_int a, st_time = ms, st_newState = word_of_int s\<rparr>],
                    numChanges := numChanges c + 1\<rparr>"
  have add: "addStateChange c w (word_of_int a) ms (word_of_int s) =
      (if numChanges c + 1 = 128 then flushStateChanges c1 w else (Success, c1, w))"
    using h by (simp add: addStateChange_def UAMP_STATE_BUFFER_SIZE_def Let_def c1_def)
  have fl: "flushStateChanges c1 w =
      (case socketWrite w (state_change_frame c1) of
         (r, w') \<Rightarrow>
           if r \<noteq> Success
           then (r, c1\<lparr>commBuf := \<lparr>total = 1541, passed = 1541,
                                   buffer = state_change_frame c1\<rparr>\<rparr>, w')
           else (Success, c1\<lparr>commBuf := \<lparr>total = 1541, passed = 1541, buffer = []\<rparr>,
                            numChanges := 0\<rparr>, w'))"
    if "numChanges c + 1 = 128"
  proof -
    have n: "0 < numChanges c1" "numChanges c1 \<le> 128" "length (changes c1) = 128"
      "nat (numChanges c1) = 128"
      using that h by (simp_all add: c1_def)
    show ?thesis
      using flushStateChanges_eq[OF n(1,2,3), of w] by (simp add: n(4) split: prod.splits)
  qed
  show "uampChangeState c w a t s =
     (if dless t (Finite 0) \<or> dless (Finite UAMP_MAX_TIME) t
      then (Failure ERROR_INVALID_CHANGE_TIME, c, w)
      else if \<not> (0 \<le> a \<and> a < uint (numAgents c)) then (Aborted, c, w)
      else if (word_of_int (llround w (dmul t (Finite 1000))) :: u32) > timeLimit c
      then (Failure ERROR_INVALID_CHANGE_TIME, c, w)
      else if s < 0 \<or> s \<ge> uint (numStates c) then (Failure ERROR_INVALID_CHANGE_STATE, c, w)
      else
        (let c1 = c\<lparr>changes := (changes c)[nat (numChanges c) :=
                      \<lparr>st_agentID = word_of_int a,
                       st_time = word_of_int (llround w (dmul t (Finite 1000))),
                       st_newState = word_of_int s\<rparr>],
                    numChanges := numChanges c + 1\<rparr>
         in if numChanges c + 1 = 128 then
              (case socketWrite w (state_change_frame c1) of
                 (r, w') \<Rightarrow>
                   if r \<noteq> Success
                   then (r, c1\<lparr>commBuf := \<lparr>total = 1541, passed = 1541,
                                           buffer = state_change_frame c1\<rparr>\<rparr>, w')
                   else (Success, c1\<lparr>commBuf := \<lparr>total = 1541, passed = 1541, buffer = []\<rparr>,
                                    numChanges := 0\<rparr>, w'))
            else (Success, c1, w)))"
    unfolding Let_def ms_def[symmetric] c1_def[symmetric]
    using h add fl
    by (simp add: uampChangeState_def Let_def ms_def[symmetric])
qed


theorem uampChangeState_validates_then_buffers_witness:
  "numStates (example_client 2) \<noteq> 0 \<and> 0 \<le> numChanges (example_client 2) \<and>
   numChanges (example_client 2) < 128 \<and> length (changes (example_client 2)) = 128 \<and>
   uampChangeState (example_client 2) example_world 1 (Finite 0.5) 1 =
     (Success,
      (example_client 2)\<lparr>changes := (changes (example_client 2))[0 :=
          \<lparr>st_agentID = 1, st_time = 500, st_newState = 1\<rparr>], numChanges := 1\<rparr>,
      example_world) \<and>
   is_double example_time \<and> 0 \<le> example_time \<and> example_time \<le> UAMP_MAX_TIME \<and>
   round (example_time * 1000) = 4 \<and>
   llround example_world (dmul (Finite example_time) (Finite 1000)) = 5 \<and>
   uampChangeState (example_client 2) example_world 1 (Finite example_time) 1 =
     (Success,
      (example_client 2)\<lparr>changes := (changes (example_client 2))[0 :=
          \<lparr>st_agentID = 1, st_time = 5, st_newState = 1\<rparr>], numChanges := 1\<rparr>,
      example_world) \<and>
   uampChangeState ((example_client 2)\<lparr>timeLimit := 4\<rparr>) example_world 1 (Finite example_time) 1 =
     (Failure ERROR_INVALID_CHANGE_TIME, (example_client 2)\<lparr>timeLimit := 4\<rparr>, example_world) \<and>
   uampChangeState (example_client 2) example_world 1 NaN 1 =
     (Success,
      (example_client 2)\<lparr>changes := (changes (example_client 2))[0 :=
          \<lparr>st_agentID = 1, st_time = 0, st_newState = 1\<rparr>], numChanges := 1\<rparr>,
      example_world) \<and>
   uampChangeState (example_client 2) example_world 1 (Finite 2.5) 1 =
     (Failure ERROR_INVALID_CHANGE_TIME, example_client 2, example_world) \<and>
   uampChangeState (example_client 2) example_world 99 (Finite (- 1)) 1 =
     (Failure ERROR_INVALID_CHANGE_TIME, example_client 2, example_world) \<and>
   uampChangeState (example_client 2) example_world 99 PlusInfinity 1 =
     (Failure ERROR_INVALID_CHANGE_TIME, example_client 2, example_world) \<and>
   uampChangeState (example_client 2) example_world 99 (Finite 2.5) 1 =
     (Aborted, example_client 2, example_world) \<and>
   uampChangeState (example_client 2) example_world 1 (Finite 0.5) 2 =
     (Failure ERROR_INVALID_CHANGE_STATE, example_client 2, example_world) \<and>
   numStates example_full_client \<noteq> 0 \<and> 0 \<le> numChanges example_full_client \<and>
   numChanges example_full_client < 128 \<and> length (changes example_full_client) = 128 \<and>
   uampChangeState example_full_client example_world 1 (Finite 0.5) 1 =
     (Success,
      example_full_client\<lparr>changes := (changes example_full_client)[127 :=
          \<lparr>st_agentID = 1, st_time = 500, st_newState = 1\<rparr>],
        commBuf := \<lparr>total = 1541, passed = 1541, buffer = []\<rparr>, numChanges := 0\<rparr>,
      example_world\<lparr>sent :=
        [2, 0, 0, 0, 128] @
        concat (replicate 127 [0, 0, 0, 0, 0, 0, 0, 0, 0, 0, 0, 0]) @
        [0, 0, 0, 1, 0, 0, 1, 244, 0, 0, 0, 1]\<rparr>)"
proof -
  note t = uampChangeState_validates_then_buffers
  have wf: "numStates (example_client 2) \<noteq> 0 \<and> 0 \<le> numChanges (example_client 2) \<and>
      numChanges (example_client 2) < 128 \<and> length (changes (example_client 2)) = 128"
    by (simp add: example_client_def)
  have wf4: "numStates ((example_client 2)\<lparr>timeLimit := 4\<rparr>) \<noteq> 0 \<and>
      0 \<le> numChanges ((example_client 2)\<lparr>timeLimit := 4\<rparr>) \<and>
      numChanges ((example_client 2)\<lparr>timeLimit := 4\<rparr>) < 128 \<and>
      length (changes ((example_client 2)\<lparr>timeLimit := 4\<rparr>)) = 128"
    by (simp add: example_client_def)
  have wff: "numStates example_full_client \<noteq> 0 \<and> 0 \<le> numChanges example_full_client \<and>
      numChanges example_full_client < 128 \<and> length (changes example_full_client) = 128"
    by (simp add: example_full_client_def example_client_def)
  have half: "dmul (Finite (1 / 2)) (Finite 1000) = Finite 500"
    "dmul (Finite (5 / 2)) (Finite 1000) = Finite 2500"
    by simp_all
  have ex: "numAgents (example_client ns) = 3" "timeLimit (example_client ns) = 2000"
    "numStates (example_client ns) = ns" "numChanges (example_client ns) = 0" for ns
    by (simp_all add: example_client_def)
  have ll: "llround example_world (Finite 500) = 500" "llround example_world (Finite 2500) = 2500"
    "llround example_world (Finite (9 / 2)) = 5" "llround example_world NaN = - 9223372036854775808"
    by (simp_all add: llround_def round_half_away_def example_world_def)
  have nan: "(- 9223372036854775808 :: u32) = 0"
    by (simp add: word_uint_eq_iff uint_word_of_int)
  have a1: "uampChangeState (example_client 2) example_world 1 (Finite 0.5) 1 =
     (Success,
      (example_client 2)\<lparr>changes := (changes (example_client 2))[0 :=
          \<lparr>st_agentID = 1, st_time = 500, st_newState = 1\<rparr>], numChanges := 1\<rparr>,
      example_world)"
    using t[of "example_client 2" example_world 1 "Finite 0.5" 1, THEN conjunct2, THEN conjunct2,
        THEN conjunct2] wf
    by (simp add: half ll ex UAMP_MAX_TIME_def)
  have a2: "uampChangeState (example_client 2) example_world 1 (Finite example_time) 1 =
     (Success,
      (example_client 2)\<lparr>changes := (changes (example_client 2))[0 :=
          \<lparr>st_agentID = 1, st_time = 5, st_newState = 1\<rparr>], numChanges := 1\<rparr>,
      example_world)"
    using t[of "example_client 2" example_world 1 "Finite example_time" 1, THEN conjunct2,
        THEN conjunct2, THEN conjunct2] wf example_time_range(1,2)
    by (simp add: example_time_product ll ex)
  have a3: "uampChangeState ((example_client 2)\<lparr>timeLimit := 4\<rparr>) example_world 1
        (Finite example_time) 1 =
     (Failure ERROR_INVALID_CHANGE_TIME, (example_client 2)\<lparr>timeLimit := 4\<rparr>, example_world)"
    using t[of "(example_client 2)\<lparr>timeLimit := 4\<rparr>" example_world 1 "Finite example_time" 1,
        THEN conjunct2, THEN conjunct2, THEN conjunct2] wf4 example_time_range(1,2)
    by (simp add: example_time_product ll ex)
  have a4: "uampChangeState (example_client 2) example_world 1 NaN 1 =
     (Success,
      (example_client 2)\<lparr>changes := (changes (example_client 2))[0 :=
          \<lparr>st_agentID = 1, st_time = 0, st_newState = 1\<rparr>], numChanges := 1\<rparr>,
      example_world)"
    using t[of "example_client 2" example_world 1 NaN 1, THEN conjunct2, THEN conjunct2,
        THEN conjunct2] wf
    by (simp add: ll nan ex)
  have a5: "uampChangeState (example_client 2) example_world 1 (Finite 2.5) 1 =
     (Failure ERROR_INVALID_CHANGE_TIME, example_client 2, example_world)"
    using t[of "example_client 2" example_world 1 "Finite 2.5" 1, THEN conjunct2, THEN conjunct2,
        THEN conjunct2] wf
    by (simp add: half ll ex UAMP_MAX_TIME_def)
  have a6: "uampChangeState (example_client 2) example_world 99 (Finite (- 1)) 1 =
     (Failure ERROR_INVALID_CHANGE_TIME, example_client 2, example_world)"
    using t[of "example_client 2" example_world 99 "Finite (- 1)" 1, THEN conjunct2,
        THEN conjunct2, THEN conjunct2] wf
    by simp
  have a7: "uampChangeState (example_client 2) example_world 99 PlusInfinity 1 =
     (Failure ERROR_INVALID_CHANGE_TIME, example_client 2, example_world)"
    using t[of "example_client 2" example_world 99 PlusInfinity 1, THEN conjunct2,
        THEN conjunct2, THEN conjunct2] wf
    by simp
  have a8: "uampChangeState (example_client 2) example_world 99 (Finite 2.5) 1 =
     (Aborted, example_client 2, example_world)"
    using t[of "example_client 2" example_world 99 "Finite 2.5" 1, THEN conjunct2,
        THEN conjunct2, THEN conjunct2] wf
    by (simp add: ex UAMP_MAX_TIME_def)
  have a9: "uampChangeState (example_client 2) example_world 1 (Finite 0.5) 2 =
     (Failure ERROR_INVALID_CHANGE_STATE, example_client 2, example_world)"
    using t[of "example_client 2" example_world 1 "Finite 0.5" 2, THEN conjunct2, THEN conjunct2,
        THEN conjunct2] wf
    by (simp add: half ll ex UAMP_MAX_TIME_def)
  have l5: "llround example_world (dmul (Finite example_time) (Finite 1000)) = 5"
    by (simp add: example_time_product ll)
  define full where "full = example_full_client\<lparr>changes := (changes example_full_client)[127 :=
          \<lparr>st_agentID = 1, st_time = 500, st_newState = 1\<rparr>], numChanges := 128\<rparr>"
  have chs: "changes full = replicate 127 \<lparr>st_agentID = 0, st_time = 0, st_newState = 0\<rparr> @
      [\<lparr>st_agentID = 1, st_time = 500, st_newState = 1\<rparr>]"
  proof -
    have "(128::nat) = 127 + 1" by simp
    then have "replicate 128 z = replicate 127 z @ [z]" for z :: uampState
      by (simp only: replicate_add) simp
    then show ?thesis
      by (simp add: full_def example_full_client_def example_client_def list_update_append)
  qed
  have frame: "state_change_frame full =
        [2, 0, 0, 0, 128] @
        concat (replicate 127 [0, 0, 0, 0, 0, 0, 0, 0, 0, 0, 0, 0]) @
        [0, 0, 0, 1, 0, 0, 1, 244, 0, 0, 0, 1]"
  proof -
    have n: "numChanges full = 128" by (simp add: full_def)
    have "take 128 (changes full) = changes full" by (simp add: chs)
    then show ?thesis
      unfolding state_change_frame_def n
      by (simp add: chs change_bytes_def be32_def map_replicate_const)
  qed
  have sw: "socketWrite example_world bs = (Success, example_world\<lparr>sent := bs\<rparr>)" for bs
    by (simp add: socketWrite_eq example_world_def)
  have a10: "uampChangeState example_full_client example_world 1 (Finite 0.5) 1 =
     (Success,
      example_full_client\<lparr>changes := (changes example_full_client)[127 :=
          \<lparr>st_agentID = 1, st_time = 500, st_newState = 1\<rparr>],
        commBuf := \<lparr>total = 1541, passed = 1541, buffer = []\<rparr>, numChanges := 0\<rparr>,
      example_world\<lparr>sent :=
        [2, 0, 0, 0, 128] @
        concat (replicate 127 [0, 0, 0, 0, 0, 0, 0, 0, 0, 0, 0, 0]) @
        [0, 0, 0, 1, 0, 0, 1, 244, 0, 0, 0, 1]\<rparr>)"
  proof -
    have f: "numChanges example_full_client = 127" "numStates example_full_client = 2"
      "numAgents example_full_client = 3" "timeLimit example_full_client = 2000"
      by (simp_all add: example_full_client_def example_client_def)
    have "uampChangeState example_full_client example_world 1 (Finite 0.5) 1 =
        (Success, full\<lparr>commBuf := \<lparr>total = 1541, passed = 1541, buffer = []\<rparr>,
                       numChanges := 0\<rparr>,
         example_world\<lparr>sent := state_change_frame full\<rparr>)"
      using t[of example_full_client example_world 1 "Finite 0.5" 1, THEN conjunct2,
        THEN conjunct2, THEN conjunct2] wff
      by (simp add: half ll f Let_def full_def[symmetric] sw UAMP_MAX_TIME_def)
    then show ?thesis by (simp add: frame) (simp add: full_def)
  qed
  show ?thesis
    using wf wff example_time_double example_time_range l5 a1 a2 a3 a4 a5 a6 a7 a8 a9 a10
    by simp
qed

section \<open>The update queues\<close>

text \<open>
  A successful verification of a reply, spelled out: what it leaves in the agent and what
  it has checked about the time of the reply.
\<close>

lemma receiveReply_verify_success:
  assumes "receiveReply_verify L a1 = (Success, a')"
  defines "reply \<equiv> slot a1 (recvIndex a1)"
    and "previous \<equiv> (if recvIndex a1 = 0 then slot a1 (UAMP_UPDATE_QUEUE_SIZE - 1)
                      else slot a1 (recvIndex a1 - 1))"
  shows "a' = a1\<lparr>receivedFinal := (receivedFinal a1 \<or> aliveInQueue a1 \<noteq> 0 \<and> upd_time reply = L),
                 aliveInQueue := aliveInQueue a1 + 1,
                 recvIndex := ring_next (recvIndex a1)\<rparr>"
    and "aliveInQueue a1 = 0 \<Longrightarrow> upd_time reply = 0"
    and "aliveInQueue a1 \<noteq> 0 \<Longrightarrow> receivedFinal a1 \<Longrightarrow> reply = previous"
    and "aliveInQueue a1 \<noteq> 0 \<Longrightarrow> \<not> receivedFinal a1 \<Longrightarrow>
           upd_time previous < upd_time reply \<and> upd_time reply \<le> L"
proof -
  define first where "first =
     (if aliveInQueue a1 = 0 then
                 (if upd_time reply \<noteq> 0 then (Failure ERROR_FIRST_UPDATE_TIME, a1)
                  else (Success, a1))
               else
                 (if receivedFinal a1 then
                       (if reply \<noteq> previous
                        then (Failure ERROR_NON_EQUAL_FINAL_UPDATES, a1)
                        else (Success, a1))
                     else
                       (if upd_time reply \<le> upd_time previous
                        then (Failure ERROR_TIMESTAMP_NOT_INCREMENTED, a1)
                        else if upd_time reply > L
                        then (Failure ERROR_TIMESTAMP_TOO_LARGE, a1)
                        else if upd_time reply = L
                        then (Success, a1\<lparr>receivedFinal := True\<rparr>)
                        else (Success, a1))))"
  have v: "receiveReply_verify L a1 =
     (if fst first \<noteq> Success then first
             else if upd_present reply \<noteq> 0x00 \<and> upd_present reply \<noteq> 0x01
             then (Failure ERROR_INVALID_PRESENT_FLAG, snd first)
             else (Success,
                   (snd first)\<lparr>aliveInQueue := aliveInQueue (snd first) + 1,
                          recvIndex := ring_next (recvIndex (snd first))\<rparr>))"
    unfolding receiveReply_verify_def Let_def first_def[symmetric, unfolded reply_def previous_def]
        reply_def ring_next_def
    by (simp only: split_beta prod.collapse)
  have fs: "fst first = Success"
    and a': "a' = (snd first)\<lparr>aliveInQueue := aliveInQueue (snd first) + 1,
                          recvIndex := ring_next (recvIndex (snd first))\<rparr>"
    using assms(1) unfolding v by (auto split: if_splits)
  show "aliveInQueue a1 = 0 \<Longrightarrow> upd_time reply = 0"
    using fs unfolding first_def by (auto split: if_splits)
  show "aliveInQueue a1 \<noteq> 0 \<Longrightarrow> receivedFinal a1 \<Longrightarrow> reply = previous"
    using fs unfolding first_def by (auto split: if_splits)
  show "aliveInQueue a1 \<noteq> 0 \<Longrightarrow> \<not> receivedFinal a1 \<Longrightarrow>
           upd_time previous < upd_time reply \<and> upd_time reply \<le> L"
    using fs unfolding first_def by (auto split: if_splits)
  have sf: "snd first = a1\<lparr>receivedFinal := (receivedFinal a1 \<or> aliveInQueue a1 \<noteq> 0 \<and> upd_time reply = L)\<rparr>"
    using fs unfolding first_def by (auto split: if_splits)
  show "a' = a1\<lparr>receivedFinal := (receivedFinal a1 \<or> aliveInQueue a1 \<noteq> 0 \<and> upd_time reply = L),
                 aliveInQueue := aliveInQueue a1 + 1,
                 recvIndex := ring_next (recvIndex a1)\<rparr>"
    unfolding a' sf by simp
qed


lemma slot_simps [simp]:
  "slot (a\<lparr>receivedFinal := f\<rparr>) j = slot a j"
  "slot (a\<lparr>aliveInQueue := n\<rparr>) j = slot a j"
  "slot (a\<lparr>recvIndex := r\<rparr>) j = slot a j"
  "slot (a\<lparr>currentIndex := i\<rparr>) j = slot a j"
  by (simp_all add: slot_def)

text \<open>
  A reply that is accepted into a queue with room keeps the invariant of the queue and
  adds one update behind the alive ones.
\<close>

lemma ring_shift_recv: "(((r::int) + 1) mod 6 - (n + 1) + k) mod 6 = (r - n + k) mod 6"
proof -
  have "((r + 1) mod 6 - (n + 1) + k) mod 6 = ((r + 1) mod 6 + (k - (n + 1))) mod 6"
    by (simp add: algebra_simps)
  also have "\<dots> = ((r + 1) + (k - (n + 1))) mod 6"
    by (rule mod_add_left_eq)
  also have "\<dots> = (r - n + k) mod 6"
    by (simp add: algebra_simps)
  finally show ?thesis .
qed

lemma ring_shift_position: "((cur::int) - (r + 1) mod 6 + (n + 1)) mod 6 = (cur - r + n) mod 6"
proof -
  have "(cur - (r + 1) mod 6 + (n + 1)) mod 6 = ((cur + (n + 1)) - (r + 1) mod 6) mod 6"
    by (simp add: algebra_simps)
  also have "\<dots> = ((cur + (n + 1)) - (r + 1)) mod 6"
    by (rule mod_diff_right_eq)
  also have "\<dots> = (cur - r + n) mod 6"
    by (simp add: algebra_simps)
  finally show ?thesis .
qed

lemma ring_window_new:
  "0 \<le> k \<Longrightarrow> k < n \<Longrightarrow> n < 6 \<Longrightarrow> 0 \<le> r \<Longrightarrow> r < 6 \<Longrightarrow> ((r::int) - n + k) mod 6 \<noteq> r"
  by presburger

lemma ring_position:
  assumes "0 \<le> cur" "cur < 6" "((cur::int) - r + n) mod 6 = p"
  shows "cur = (r - n + p) mod 6"
proof -
  have "(r - n + p) mod 6 = (r - n + (cur - r + n) mod 6) mod 6" using assms(3) by simp
  also have "\<dots> = (r - n + (cur - r + n)) mod 6" by (rule mod_add_right_eq)
  also have "\<dots> = cur mod 6" by (simp add: algebra_simps)
  also have "\<dots> = cur" using assms(1,2) by simp
  finally show ?thesis by simp
qed

lemmas ring_position_0 = ring_position[where p = 0]
lemmas ring_position_1 = ring_position[where p = 1]

lemma receiveReply_inv:
  assumes inv: "queue_inv L a" and lt: "aliveInQueue a < UAMP_UPDATE_QUEUE_SIZE"
    and L: "timeLimit c = L"
    and rr: "receiveReply c a w = (Success, a', buf', w')"
  shows "queue_inv L a' \<and> extends a a' \<and> aliveInQueue a' = aliveInQueue a + 1 \<and>
         (receivedFinal a \<longrightarrow> receivedFinal a')"
proof -
  define r where "r = recvIndex a"
  define n where "n = aliveInQueue a"
  define cur where "cur = currentIndex a"
  have b: "int (length (updates a)) = 6" "0 \<le> cur" "cur < 6" "0 \<le> r" "r < 6" "0 \<le> n" "n < 6"
    using inv lt by (simp_all add: queue_inv_def UAMP_UPDATE_QUEUE_SIZE_def r_def n_def cur_def)
  have chain: "\<And>k. 0 \<le> k \<Longrightarrow> k + 1 < n \<Longrightarrow> follows L (window_upd a k) (window_upd a (k + 1))"
    using inv by (simp add: queue_inv_def n_def)
  have fin: "receivedFinal a \<Longrightarrow> 2 \<le> n \<and> upd_time (window_upd a (n - 1)) = L"
    using inv by (simp add: queue_inv_def n_def)
  have pos: "position a = 0 \<and> current_time a = 0 \<or>
      position a = 1 \<and> 1 \<le> n \<and> upd_time (window_upd a 0) \<noteq> L \<and>
        (2 \<le> n \<longrightarrow> upd_time (window_upd a 0) < current_time a)"
    using inv by (simp add: queue_inv_def n_def)
  obtain a1 where rd: "receiveReply_read c a w = (Success, a1, buf', w')"
    and vf: "receiveReply_verify L a1 = (Success, a')"
    using rr L by (auto simp: receiveReply_def split: if_splits prod.splits)
  obtain u where a1: "a1 = set_slot a r u"
    using receiveReply_read_frame[OF rd] by (auto simp: r_def)
  have sok: "slot_ok a r" using b by (simp add: slot_ok_def r_def)
  have s1: "slot a1 r = u" "\<And>j. 0 \<le> j \<Longrightarrow> j \<noteq> r \<Longrightarrow> slot a1 j = slot a j"
    using a1 sok b by auto
  have f1: "aliveInQueue a1 = n" "recvIndex a1 = r" "receivedFinal a1 = receivedFinal a"
    "currentIndex a1 = cur" "length (updates a1) = length (updates a)"
    using a1 by (simp_all add: n_def r_def cur_def)
  note vs = receiveReply_verify_success[OF vf, unfolded f1 s1(1)]
  define f' where "f' = (receivedFinal a \<or> n \<noteq> 0 \<and> upd_time u = L)"
  have a': "a' = a1\<lparr>receivedFinal := f', aliveInQueue := n + 1, recvIndex := ring_next r\<rparr>"
    using vs(1) by (simp add: f'_def)
  have g: "aliveInQueue a' = n + 1" "recvIndex a' = ring_next r" "receivedFinal a' = f'"
    "currentIndex a' = cur" "length (updates a') = length (updates a)"
    "\<And>j. slot a' j = slot a1 j"
    by (simp_all add: a' f1)
  have rn: "ring_next r = (r + 1) mod 6"
    using b by (auto simp: ring_next_def UAMP_UPDATE_QUEUE_SIZE_def)
  have W1: "window_slot a' k = window_slot a k" for k
    unfolding window_slot_def g rn UAMP_UPDATE_QUEUE_SIZE_def r_def[symmetric] n_def[symmetric]
    by (rule ring_shift_recv)
  have W2: "0 \<le> window_slot a k" "window_slot a k < 6" for k
    by (simp_all add: window_slot_def UAMP_UPDATE_QUEUE_SIZE_def)
  have W3: "0 \<le> k \<Longrightarrow> k < n \<Longrightarrow> window_slot a k \<noteq> r" for k
    unfolding window_slot_def UAMP_UPDATE_QUEUE_SIZE_def r_def[symmetric] n_def[symmetric]
    using b ring_window_new[of k n r] by simp
  have W4: "window_slot a n = r"
    unfolding window_slot_def UAMP_UPDATE_QUEUE_SIZE_def r_def[symmetric] n_def[symmetric]
    using b by simp
  have old: "0 \<le> k \<Longrightarrow> k < n \<Longrightarrow> window_upd a' k = window_upd a k" for k
    using W1 W2 W3 s1(2) by (simp add: window_upd_def g)
  have new: "window_upd a' n = u"
    using W1 W4 s1(1) by (simp add: window_upd_def g)
  have prev: "0 < n \<Longrightarrow>
      (if r = 0 then slot a1 (UAMP_UPDATE_QUEUE_SIZE - 1) else slot a1 (r - 1)) = window_upd a (n - 1)"
  proof -
    assume n0: "0 < n"
    have "window_slot a (n - 1) = (if r = 0 then 5 else r - 1)"
      unfolding window_slot_def UAMP_UPDATE_QUEUE_SIZE_def r_def[symmetric] n_def[symmetric]
      using b by auto
    moreover have "slot a1 (if r = 0 then 5 else r - 1) = slot a (if r = 0 then 5 else r - 1)"
      using b by (intro s1(2)) auto
    ultimately show ?thesis
      by (auto simp: window_upd_def UAMP_UPDATE_QUEUE_SIZE_def)
  qed
  have P: "position a' = position a"
    unfolding position_def g rn UAMP_UPDATE_QUEUE_SIZE_def r_def[symmetric] n_def[symmetric]
      cur_def[symmetric]
    by (rule ring_shift_position)
  have C0: "position a = 0 \<Longrightarrow> cur = window_slot a 0"
    unfolding position_def window_slot_def UAMP_UPDATE_QUEUE_SIZE_def r_def[symmetric]
      n_def[symmetric] cur_def[symmetric]
    using b ring_position_0[of cur r n] by simp
  have C1: "position a = 1 \<Longrightarrow> cur = window_slot a 1"
    unfolding position_def window_slot_def UAMP_UPDATE_QUEUE_SIZE_def r_def[symmetric]
      n_def[symmetric] cur_def[symmetric]
    using b ring_position_1[of cur r n] by simp
  have ct: "current_time a' = upd_time (slot a1 cur)" "current_time a = upd_time (slot a cur)"
    by (simp_all add: current_time_def g cur_def)
  have last: "0 < n \<Longrightarrow> follows L (window_upd a (n - 1)) u"
  proof -
    assume n0: "0 < n"
    show ?thesis
    proof (cases "receivedFinal a")
      case True
      then show ?thesis
        using vs(3) n0 prev fin by (auto simp: follows_def)
    next
      case False
      then show ?thesis
        using vs(4) n0 prev by (auto simp: follows_def)
    qed
  qed
  have chain': "follows L (window_upd a' k) (window_upd a' (k + 1))"
    if "0 \<le> k" "k + 1 < n + 1" for k
  proof (cases "k + 1 < n")
    case True
    then show ?thesis using chain[of k] old[of k] old[of "k + 1"] that by simp
  next
    case False
    then have k: "k = n - 1" "0 < n" using that by auto
    show ?thesis using last old[of "n - 1"] new k by simp
  qed
  have fin': "f' \<Longrightarrow> upd_time (window_upd a' n) = L"
  proof -
    assume f: f'
    show ?thesis
    proof (cases "receivedFinal a")
      case True
      then have "0 < n" "upd_time (window_upd a (n - 1)) = L" using fin by auto
      moreover have "u = window_upd a (n - 1)" using vs(3) True prev \<open>0 < n\<close> by simp
      ultimately show ?thesis using new by simp
    next
      case False
      then show ?thesis using f new by (simp add: f'_def)
    qed
  qed
  have fin2: "f' \<Longrightarrow> 2 \<le> n + 1"
    using fin b by (auto simp: f'_def)
  have lim: "2 \<le> n \<Longrightarrow> 0 < L" using inv by (simp add: queue_inv_def n_def)
  have lim': "2 \<le> n + 1 \<Longrightarrow> 0 < L"
  proof (cases "2 \<le> n")
    case True
    then show ?thesis by (rule lim)
  next
    case False
    assume "2 \<le> n + 1"
    with False have n1: "n = 1" by simp
    then have nf: "\<not> receivedFinal a" using fin by auto
    have "upd_time (window_upd a (n - 1)) < upd_time u \<and> upd_time u \<le> L"
      using vs(4) nf prev n1 by simp
    then have "L \<noteq> 0" by (auto simp: word_less_nat_alt word_le_nat_alt)
    then show ?thesis by (simp add: word_greater_zero_iff)
  qed
  have pos': "position a' = 0 \<and> current_time a' = 0 \<or>
      position a' = 1 \<and> 1 \<le> n + 1 \<and> upd_time (window_upd a' 0) \<noteq> L \<and>
        (2 \<le> n + 1 \<longrightarrow> upd_time (window_upd a' 0) < current_time a')"
    using pos
  proof (elim disjE conjE)
    assume p: "position a = 0" "current_time a = 0"
    have "current_time a' = 0"
    proof (cases "n = 0")
      case True
      then have "cur = r" using C0[OF p(1)] W4 by simp
      then show ?thesis using vs(2) True s1(1) ct by simp
    next
      case False
      then have "cur \<noteq> r" using C0[OF p(1)] W3[of 0] b by simp
      then show ?thesis using ct p(2) s1(2) b by simp
    qed
    then show ?thesis using p P by simp
  next
    assume p: "position a = 1" "1 \<le> n" "upd_time (window_upd a 0) \<noteq> L"
      "2 \<le> n \<longrightarrow> upd_time (window_upd a 0) < current_time a"
    have w0: "window_upd a' 0 = window_upd a 0" using old[of 0] p(2) by simp
    have "upd_time (window_upd a 0) < current_time a'"
    proof (cases "n = 1")
      case True
      then have c: "cur = r" using C1[OF p(1)] W4 by simp
      have nf: "\<not> receivedFinal a" using fin p(3) True by auto
      have "upd_time (window_upd a (n - 1)) < upd_time u"
        using vs(4) nf prev True by simp
      then show ?thesis using True c ct s1(1) by simp
    next
      case False
      then have n2: "2 \<le> n" using p(2) by simp
      then have "cur \<noteq> r" using C1[OF p(1)] W3[of 1] by simp
      then show ?thesis using ct p(4) n2 s1(2) b by simp
    qed
    then show ?thesis using p P w0 b by simp
  qed
  have rb: "0 \<le> ring_next r" "ring_next r < 6" using rn by simp_all
  have q: "queue_inv L a'"
    unfolding queue_inv_def g UAMP_UPDATE_QUEUE_SIZE_def
    apply (intro conjI)
    subgoal using b by simp
    subgoal using b by simp
    subgoal using b by simp
    subgoal using rb by simp
    subgoal using rb by simp
    subgoal using b by simp
    subgoal using b by simp
    subgoal using chain' by simp
    subgoal using fin' fin2 by simp
    subgoal using lim' by simp
    subgoal using pos' by simp
    done
  have e: "extends a a'"
    unfolding extends_def g UAMP_UPDATE_QUEUE_SIZE_def rn
    apply (intro conjI)
    subgoal by (simp add: cur_def)
    subgoal by simp
    subgoal using ring_shift_recv[of r n 0] by (simp add: r_def n_def)
    subgoal by (simp add: n_def)
    subgoal by (simp add: f'_def)
    subgoal using old by (simp add: n_def)
    done
  show ?thesis
    using q e g by (simp add: n_def f'_def)
qed


text \<open>Receiving the replies for one agent, for a batch and for all agents.\<close>

lemma extends_refl [simp]: "extends a a"
  by (simp add: extends_def)

lemma extends_trans:
  assumes "extends a b" "extends b c"
  shows "extends a c"
proof -
  have w: "window_upd c k = window_upd a k" if "0 \<le> k" "k < aliveInQueue a" for k
  proof -
    have "k < aliveInQueue b" using that assms(1) by (simp add: extends_def)
    then have "window_upd c k = window_upd b k" using that assms(2) by (simp add: extends_def)
    then show ?thesis using that assms(1) by (simp add: extends_def)
  qed
  show ?thesis
    unfolding extends_def
    apply (intro conjI)
    subgoal using assms by (simp add: extends_def)
    subgoal using assms by (simp add: extends_def)
    subgoal using assms by (simp add: extends_def)
    subgoal using assms by (simp add: extends_def)
    subgoal using assms by (simp add: extends_def)
    subgoal using w by simp
    done
qed

lemma same_session_refl [simp]: "same_session c c"
  by (simp add: same_session_def)

lemma same_session_trans: "same_session a b \<Longrightarrow> same_session b c \<Longrightarrow> same_session a c"
  by (simp add: same_session_def)

lemma the_agents_simps [simp]:
  "the_agents (put_agent c i a) = (the_agents c)[i := a]"
  "the_agents (c\<lparr>commBuf := b\<rparr>) = the_agents c"
  "the_agents (c\<lparr>largestLastTime := t\<rparr>) = the_agents c"
  "the_agents (c\<lparr>smallestCurrentTime := t\<rparr>) = the_agents c"
  by (simp_all add: the_agents_def put_agent_def)

lemma agent_at_simps [simp]:
  "agent_at (c\<lparr>commBuf := b\<rparr>) j = agent_at c j"
  "agent_at (c\<lparr>largestLastTime := t\<rparr>) j = agent_at c j"
  "agent_at (c\<lparr>smallestCurrentTime := t\<rparr>) j = agent_at c j"
  by (simp_all add: agent_at_def)

lemma agent_at_put_agent:
  "i < length (the_agents c) \<Longrightarrow>
   agent_at (put_agent c i a) j = (if j = i then a else agent_at c j)"
  by (simp add: agent_at_def)

lemma numToRequest_commBuf [simp]: "numToRequest (c\<lparr>commBuf := b\<rparr>) j = numToRequest c j"
  by (simp add: numToRequest_def)

lemma same_session_put_agent:
  "i < length (the_agents c) \<Longrightarrow> same_session c ((put_agent c i a)\<lparr>commBuf := b\<rparr>)"
  by (auto simp: same_session_def put_agent_def the_agents_def split: option.splits)

lemma same_session_commBuf [simp]: "same_session c (c\<lparr>commBuf := b\<rparr>)"
  by (simp add: same_session_def)

lemma receive_replies_inv:
  assumes "receive_replies k c i w = (Success, c', w')"
    and "i < length (the_agents c)" and "queue_inv L (agent_at c i)"
    and "aliveInQueue (agent_at c i) + int k \<le> 6" and "timeLimit c = L"
  shows "same_session c c' \<and> (\<forall>j. j \<noteq> i \<longrightarrow> agent_at c' j = agent_at c j) \<and>
         queue_inv L (agent_at c' i) \<and> extends (agent_at c i) (agent_at c' i) \<and>
         aliveInQueue (agent_at c' i) = aliveInQueue (agent_at c i) + int k"
  using assms
proof (induction k arbitrary: c w)
  case 0
  then show ?case by simp
next
  case (Suc k)
  obtain r a1 buf1 w1 where rr: "receiveReply c (agent_at c i) w = (r, a1, buf1, w1)"
    by (cases "receiveReply c (agent_at c i) w") auto
  define c1 where "c1 = (put_agent c i a1)\<lparr>commBuf := buf1\<rparr>"
  have r: "r = Success" and rest: "receive_replies k c1 i w1 = (Success, c', w')"
    using Suc.prems(1) rr by (auto simp: c1_def Let_def split: if_splits)
  have lt: "aliveInQueue (agent_at c i) < UAMP_UPDATE_QUEUE_SIZE"
    using Suc.prems(4) by (simp add: UAMP_UPDATE_QUEUE_SIZE_def)
  note one = receiveReply_inv[OF Suc.prems(3) lt Suc.prems(5) rr[unfolded r]]
  have a1: "agent_at c1 i = a1" using Suc.prems(2) by (simp add: c1_def agent_at_put_agent)
  have len: "i < length (the_agents c1)" using Suc.prems(2) by (simp add: c1_def)
  have tl: "timeLimit c1 = L" using Suc.prems(5) by (simp add: c1_def put_agent_def)
  have al: "aliveInQueue (agent_at c1 i) + int k \<le> 6" using one Suc.prems(4) by (simp add: a1)
  have qi: "queue_inv L (agent_at c1 i)" using one by (simp add: a1)
  note ih = Suc.IH[OF rest len qi al tl]
  have ss: "same_session c c1" unfolding c1_def using Suc.prems(2) by (rule same_session_put_agent)
  have ag: "agent_at c1 j = agent_at c j" if "j \<noteq> i" for j
    using that Suc.prems(2) by (simp add: c1_def agent_at_put_agent)
  show ?case
    apply (intro conjI)
    subgoal using ss ih by (blast intro: same_session_trans)
    subgoal using ih ag by simp
    subgoal using ih by simp
    subgoal using ih one extends_trans by (simp add: a1) blast
    subgoal using ih one by (simp add: a1)
    done
qed


lemma numToRequest_range:
  assumes "queue_inv L (agent_at c i)"
  shows "0 \<le> numToRequest c i" "numToRequest c i \<le> 6"
    "numToRequest c i = 0 \<longleftrightarrow> filled (agent_at c i)"
    "\<not> receivedFinal (agent_at c i) \<Longrightarrow>
       aliveInQueue (agent_at c i) + int (nat (numToRequest c i)) = 6"
    "receivedFinal (agent_at c i) \<Longrightarrow> numToRequest c i = 0"
  using assms
  by (auto simp: numToRequest_def queue_inv_def filled_def UAMP_UPDATE_QUEUE_SIZE_def Let_def)

lemma needs_sum_empty [simp]: "needs_sum c j j = 0"
  by (simp add: needs_sum_def)

lemma needs_sum_first:
  "j < k \<Longrightarrow> needs_sum c j k = nat (numToRequest c j) + needs_sum c (Suc j) k"
  by (simp add: needs_sum_def sum.atLeast_Suc_lessThan)

lemma needs_sum_last:
  "j \<le> k \<Longrightarrow> needs_sum c j (Suc k) = needs_sum c j k + nat (numToRequest c k)"
  by (simp add: needs_sum_def)

lemma needs_sum_cong:
  assumes "\<And>i. j \<le> i \<Longrightarrow> i < k \<Longrightarrow> agent_at c' i = agent_at c i"
  shows "needs_sum c' j k = needs_sum c j k"
  unfolding needs_sum_def
  by (rule sum.cong) (simp_all add: numToRequest_def assms)

lemma needs_sum_zero:
  assumes "needs_sum c j k = 0" "j \<le> i" "i < k"
  shows "nat (numToRequest c i) = 0"
proof -
  have "finite {j..<k}" by simp
  moreover have "i \<in> {j..<k}" using assms by simp
  ultimately show ?thesis
    using assms(1) unfolding needs_sum_def by (simp only: sum_eq_0_iff)
qed

lemma unat_add_need:
  fixes r tot :: u32
  assumes "unat r + m \<le> unat tot" "0 \<le> x" "nat x = m"
  shows "unat (r + word_of_int x) = unat r + m"
proof -
  have t: "unat tot < 2 ^ 32" using unsigned_less[of tot, where 'a = nat] by simp
  then have m: "m < 2 ^ 32" using assms(1) by simp
  have "unat (word_of_int x :: u32) = m"
  proof -
    have "x = int m" using assms(2,3) by simp
    then have "(word_of_int x :: u32) = of_nat m" by simp
    then show ?thesis using m by (simp add: of_nat_inverse)
  qed
  moreover have "unat r + m < 2 ^ LENGTH(32)" using assms(1) t by simp
  ultimately show ?thesis
    using unat_add_lem[of r "word_of_int x :: u32"] by simp
qed

lemma request_read_loop_inv:
  assumes "request_read_loop c n w j r tot = (Success, c', w')"
    and "n = length (the_agents c)" and "j \<le> on" and "on \<le> n"
    and "unat r + needs_sum c j on = unat tot"
    and "\<forall>i<n. queue_inv L (agent_at c i)" and "timeLimit c = L"
  shows "same_session c c' \<and>
         (\<forall>i<n. queue_inv L (agent_at c' i) \<and> extends (agent_at c i) (agent_at c' i)) \<and>
         (\<forall>i<n. i < j \<or> on \<le> i \<longrightarrow> agent_at c' i = agent_at c i) \<and>
         (\<forall>i. j \<le> i \<and> i < on \<longrightarrow> filled (agent_at c' i))"
  using assms
proof (induction c n w j r tot rule: request_read_loop.induct)
  case (1 client n w onAgent onRequest totalRequests)
  note p = "1.prems"
  have guard: "\<not> INT_MAX < int onAgent"
    using p(1) by (subst (asm) request_read_loop.simps) (auto split: if_splits)
  show ?case
  proof (cases "onRequest < totalRequests")
    case False
    have res: "c' = client" "w' = w"
      using p(1) guard False by (subst (asm) request_read_loop.simps; simp)+
    have "unat totalRequests \<le> unat onRequest" using False by (simp add: word_less_nat_alt)
    then have z: "needs_sum client onAgent on = 0" using p(5) by simp
    have f: "filled (agent_at client i)" if "onAgent \<le> i" "i < on" for i
    proof -
      have q: "queue_inv L (agent_at client i)" using that p(4,6) by simp
      have "nat (numToRequest client i) = 0" using z that by (rule needs_sum_zero)
      then show ?thesis using numToRequest_range(1,3)[OF q] by simp
    qed
    show ?thesis using p(6) f by (simp add: res)
  next
    case True
    have lt: "onAgent < n"
      using p(1) guard True by (subst (asm) request_read_loop.simps) (auto split: if_splits)
    define x where "x = numToRequest client onAgent"
    obtain c1 w1 where rr: "receive_replies (nat x) client onAgent w = (Success, c1, w1)"
      and rest: "request_read_loop c1 n w1 (onAgent + 1) (onRequest + word_of_int x)
                   totalRequests = (Success, c', w')"
      using p(1) guard True lt
      by (subst (asm) request_read_loop.simps)
        (auto simp: x_def Let_def split: if_splits prod.splits)
    have q: "queue_inv L (agent_at client onAgent)" using lt p(6) by simp
    note nr = numToRequest_range[OF q, folded x_def]
    have "unat onRequest < unat totalRequests" using True by (simp add: word_less_nat_alt)
    then have pos: "0 < needs_sum client onAgent on" using p(5) by simp
    then have lton: "onAgent < on" using p(3) by (cases "onAgent = on") auto
    have al: "aliveInQueue (agent_at client onAgent) + int (nat x) \<le> 6"
    proof (cases "receivedFinal (agent_at client onAgent)")
      case True
      then show ?thesis using nr(5) q by (simp add: queue_inv_def UAMP_UPDATE_QUEUE_SIZE_def)
    next
      case False
      then show ?thesis using nr(4) by simp
    qed
    have len: "onAgent < length (the_agents client)" using lt p(2) by simp
    note one = receive_replies_inv[OF rr len q al p(7)]
    have oth: "agent_at c1 i = agent_at client i" if "i \<noteq> onAgent" for i
      using one that by simp
    have n1: "n = length (the_agents c1)" using one p(2) by (simp add: same_session_def)
    have tl1: "timeLimit c1 = L" using one p(7) by (simp add: same_session_def)
    have q1: "\<forall>i<n. queue_inv L (agent_at c1 i)"
    proof (intro allI impI)
      fix i assume "i < n"
      then show "queue_inv L (agent_at c1 i)"
        using one p(6) oth[of i] by (cases "i = onAgent") simp_all
    qed
    have ns: "needs_sum client onAgent on = nat x + needs_sum client (Suc onAgent) on"
      using lton by (simp add: needs_sum_first x_def)
    have ns1: "needs_sum c1 (Suc onAgent) on = needs_sum client (Suc onAgent) on"
      by (rule needs_sum_cong) (simp add: oth)
    have le: "unat onRequest + nat x \<le> unat totalRequests" using p(5) ns by simp
    have ua: "unat (onRequest + word_of_int x) = unat onRequest + nat x"
      using le nr(1) by (rule unat_add_need) simp
    have s1: "unat (onRequest + word_of_int x) + needs_sum c1 (onAgent + 1) on
        = unat totalRequests"
      using p(5) ns ns1 ua by simp
    have xa: "(Success, c1, w1) = receive_replies (nat x) client onAgent w" using rr by simp
    have ih: "same_session c1 c' \<and>
         (\<forall>i<n. queue_inv L (agent_at c' i) \<and> extends (agent_at c1 i) (agent_at c' i)) \<and>
         (\<forall>i<n. i < onAgent + 1 \<or> on \<le> i \<longrightarrow> agent_at c' i = agent_at c1 i) \<and>
         (\<forall>i. onAgent + 1 \<le> i \<and> i < on \<longrightarrow> filled (agent_at c' i))"
      using "1.IH"[OF guard True _ x_def xa refl _ rest n1 _ p(4) s1 q1 tl1] lt lton by simp
    have fo: "filled (agent_at c1 onAgent)"
    proof (cases "receivedFinal (agent_at client onAgent)")
      case True
      then have "receivedFinal (agent_at c1 onAgent)" using one by (simp add: extends_def)
      then show ?thesis by (simp add: filled_def)
    next
      case False
      then show ?thesis
        using one nr(4) by (simp add: filled_def UAMP_UPDATE_QUEUE_SIZE_def)
    qed
    have ss: "same_session client c'" using one ih by (blast intro: same_session_trans)
    have ex: "extends (agent_at client i) (agent_at c' i)" if "i < n" for i
    proof (cases "i = onAgent")
      case True
      have "extends (agent_at client onAgent) (agent_at c1 onAgent)" using one by simp
      moreover have "extends (agent_at c1 onAgent) (agent_at c' onAgent)" using ih lt by simp
      ultimately show ?thesis unfolding True by (rule extends_trans)
    next
      case False
      have "extends (agent_at c1 i) (agent_at c' i)" using ih that by blast
      then show ?thesis using oth[OF False] by simp
    qed
    have un: "agent_at c' i = agent_at client i" if "i < n" "i < onAgent \<or> on \<le> i" for i
    proof -
      have ne: "i \<noteq> onAgent" using that lton by auto
      have "agent_at c' i = agent_at c1 i" using ih that by auto
      then show ?thesis using oth[OF ne] by simp
    qed
    have fi: "filled (agent_at c' i)" if "onAgent \<le> i" "i < on" for i
    proof (cases "i = onAgent")
      case True
      have "agent_at c' onAgent = agent_at c1 onAgent" using ih lt by simp
      then show ?thesis using fo True by simp
    next
      case False
      then show ?thesis using ih that by simp
    qed
    have qa: "queue_inv L (agent_at c' i)" if "i < n" for i using ih that by blast
    show ?thesis using ss qa ex un fi by simp
  qed
qed

lemma requestUpdates_reads:
  assumes "requestUpdates c w start tot = (Success, c', w')"
  shows "\<exists>buf w3. request_read_loop (c\<lparr>commBuf := buf\<rparr>) (length (the_agents c)) w3 start 0 tot
            = (Success, c', w')"
  using assms unfolding requestUpdates_def Let_def
  by (auto split: prod.splits if_splits)

lemma requestUpdates_inv:
  assumes ru: "requestUpdates c w start tot = (Success, c', w')"
    and n: "n = length (the_agents c)" and so: "start \<le> on" "on \<le> n"
    and sum: "needs_sum c start on = unat tot"
    and qi: "\<forall>i<n. queue_inv L (agent_at c i)" and tl: "timeLimit c = L"
  shows "same_session c c' \<and>
         (\<forall>i<n. queue_inv L (agent_at c' i) \<and> extends (agent_at c i) (agent_at c' i)) \<and>
         (\<forall>i<n. i < start \<or> on \<le> i \<longrightarrow> agent_at c' i = agent_at c i) \<and>
         (\<forall>i. start \<le> i \<and> i < on \<longrightarrow> filled (agent_at c' i))"
proof -
  obtain buf w3 where rl:
    "request_read_loop (c\<lparr>commBuf := buf\<rparr>) (length (the_agents c)) w3 start 0 tot
       = (Success, c', w')"
    using requestUpdates_reads[OF ru] by blast
  define cb where "cb = c\<lparr>commBuf := buf\<rparr>"
  have ns: "needs_sum cb start on = needs_sum c start on"
    by (rule needs_sum_cong) (simp add: cb_def)
  have a: "n = length (the_agents cb)" using n by (simp add: cb_def)
  have b: "unat (0::u32) + needs_sum cb start on = unat tot" using sum ns by simp
  have c: "\<forall>i<n. queue_inv L (agent_at cb i)" using qi by (simp add: cb_def)
  have d: "timeLimit cb = L" using tl by (simp add: cb_def)
  have rl': "request_read_loop cb n w3 start 0 tot = (Success, c', w')"
    using rl n by (simp add: cb_def)
  note r = request_read_loop_inv[OF rl' a so b c d]
  have ss: "same_session c cb" by (simp add: cb_def)
  show ?thesis
    using r same_session_trans[OF ss] by (simp add: cb_def)
qed

lemma overflow_test:
  fixes tot x :: u32
  shows "(tot + x < tot \<or> tot + x < x) \<longleftrightarrow> 2 ^ 32 \<le> unat tot + unat x"
proof -
  have a: "(tot \<le> tot + x) = (unat tot + unat x < 2 ^ 32)"
    using no_olen_add_nat[of tot x] by simp
  have b: "(x \<le> x + tot) = (unat x + unat tot < 2 ^ 32)"
    using no_olen_add_nat[of x tot] by simp
  have c: "x + tot = tot + x" by simp
  show ?thesis
    using a b unfolding c by (auto simp: not_le[symmetric] simp del: not_le)
qed

lemma unat_need:
  assumes "0 \<le> x" "x \<le> 6"
  shows "unat (word_of_int x :: u32) = nat x"
proof -
  have "unat (0 + word_of_int x :: u32) = unat (0::u32) + nat x"
    by (rule unat_add_need[where tot = 6]) (use assms in simp_all)
  then show ?thesis by simp
qed


lemma fill_loop_inv:
  assumes "fill_loop c n w on start tot = (Success, c', w', start', tot')"
    and "n = length (the_agents c)" and "start \<le> on" and "on \<le> n"
    and "needs_sum c start on = unat tot"
    and "\<forall>i<n. queue_inv L (agent_at c i)" and "timeLimit c = L"
    and "\<forall>i. i < start \<longrightarrow> filled (agent_at c i)"
  shows "same_session c c' \<and> int n \<le> INT_MAX \<and>
         (\<forall>i<n. queue_inv L (agent_at c' i) \<and> extends (agent_at c i) (agent_at c' i)) \<and>
         start' \<le> n \<and> needs_sum c' start' n = unat tot' \<and>
         (\<forall>i. i < start' \<longrightarrow> filled (agent_at c' i))"
  using assms
proof (induction c n w on start tot rule: fill_loop.induct)
  case (1 client n w onAgent startAgent totalRequests)
  note p = "1.prems"
  have guard: "\<not> INT_MAX < int onAgent"
    using p(1) by (subst (asm) fill_loop.simps) (auto split: if_splits)
  show ?case
  proof (cases "onAgent < n")
    case False
    then have on: "onAgent = n" using p(4) by simp
    have res: "c' = client" "start' = startAgent" "tot' = totalRequests"
      using p(1) guard False by (subst (asm) fill_loop.simps; simp)+
    show ?thesis
      using p guard on by (simp add: res)
  next
    case True
    have len: "\<not> \<not> onAgent < length (the_agents client)" using True p(2) by simp
    define x :: u32 where "x = word_of_int (numToRequest client onAgent)"
    define xa where "xa = totalRequests + x"
    have q: "queue_inv L (agent_at client onAgent)" using True p(6) by simp
    note nr = numToRequest_range[OF q]
    have ux: "unat x = nat (numToRequest client onAgent)"
      unfolding x_def using nr(1,2) by (rule unat_need)
    have test: "(xa < totalRequests \<or> xa < x) \<longleftrightarrow> 2 ^ 32 \<le> unat totalRequests + unat x"
      unfolding xa_def by (rule overflow_test)
    show ?thesis
    proof (cases "xa < totalRequests \<or> xa < x")
      case ov: True
      obtain c1 w1 where ru: "requestUpdates client w startAgent totalRequests = (Success, c1, w1)"
        and rest: "fill_loop c1 n w1 (onAgent + 1) onAgent x = (Success, c', w', start', tot')"
        using p(1) guard True len ov
        by (subst (asm) fill_loop.simps)
          (auto simp: x_def xa_def Let_def split: if_splits prod.splits)
      have on_le: "onAgent \<le> n" using True by simp
      note r = requestUpdates_inv[OF ru p(2) p(3) on_le p(5) p(6) p(7)]
      have n1: "n = length (the_agents c1)" using r p(2) by (simp add: same_session_def)
      have tl1: "timeLimit c1 = L" using r p(7) by (simp add: same_session_def)
      have q1: "\<forall>i<n. queue_inv L (agent_at c1 i)" using r by blast
      have same: "agent_at c1 onAgent = agent_at client onAgent" using r True by simp
      have "needs_sum c1 onAgent (onAgent + 1) = nat (numToRequest c1 onAgent)"
        by (simp add: needs_sum_def)
      also have "\<dots> = nat (numToRequest client onAgent)" by (simp add: numToRequest_def same)
      finally have s1: "needs_sum c1 onAgent (onAgent + 1) = unat x" using ux by simp
      have f1: "\<forall>i<onAgent. filled (agent_at c1 i)"
      proof (intro allI impI)
        fix i assume i: "i < onAgent"
        show "filled (agent_at c1 i)"
        proof (cases "i < startAgent")
          case True
          then have "agent_at c1 i = agent_at client i" using r i \<open>onAgent < n\<close> by simp
          then show ?thesis using p(8) True by simp
        next
          case False
          then show ?thesis using r i by simp
        qed
      qed
      have y: "(Success, c1, w1) = requestUpdates client w startAgent totalRequests"
        using ru by simp
      have ih: "same_session c1 c' \<and> int n \<le> INT_MAX \<and>
         (\<forall>i<n. queue_inv L (agent_at c' i) \<and> extends (agent_at c1 i) (agent_at c' i)) \<and>
         start' \<le> n \<and> needs_sum c' start' n = unat tot' \<and>
         (\<forall>i. i < start' \<longrightarrow> filled (agent_at c' i))"
        using "1.IH"(1)[OF guard True len x_def xa_def ov y refl _ rest n1 _ _ s1 q1 tl1 f1] True
        by simp
      have ss: "same_session client c'" using r ih by (blast intro: same_session_trans)
      have ex: "extends (agent_at client i) (agent_at c' i)" if "i < n" for i
      proof -
        have "extends (agent_at client i) (agent_at c1 i)" using r that by blast
        moreover have "extends (agent_at c1 i) (agent_at c' i)" using ih that by blast
        ultimately show ?thesis by (rule extends_trans)
      qed
      have qa: "queue_inv L (agent_at c' i)" if "i < n" for i using ih that by blast
      show ?thesis using ss ih ex qa by simp
    next
      case nov: False
      have rest: "fill_loop client n w (onAgent + 1) startAgent xa = (Success, c', w', start', tot')"
        using p(1) guard True len nov
        by (subst (asm) fill_loop.simps)
          (auto simp: x_def xa_def Let_def split: if_splits prod.splits)
      have "unat totalRequests + unat x < 2 ^ LENGTH(32)" using nov test by simp
      then have "unat xa = unat totalRequests + unat x"
        unfolding xa_def using unat_add_lem[of totalRequests x] by simp
      then have s1: "needs_sum client startAgent (onAgent + 1) = unat xa"
        using p(3,5) ux by (simp add: needs_sum_last)
      have ih: "same_session client c' \<and> int n \<le> INT_MAX \<and>
         (\<forall>i<n. queue_inv L (agent_at c' i) \<and> extends (agent_at client i) (agent_at c' i)) \<and>
         start' \<le> n \<and> needs_sum c' start' n = unat tot' \<and>
         (\<forall>i. i < start' \<longrightarrow> filled (agent_at c' i))"
        using "1.IH"(2)[OF guard True len x_def xa_def nov rest p(2) _ _ s1 p(6) p(7) p(8)] True p(3)
        by simp
      then show ?thesis .
    qed
  qed
qed

lemma fillUpdateQueues_inv:
  assumes fu: "fillUpdateQueues c w = (Success, c', w')"
    and n: "length (the_agents c) = unat (numAgents c)"
    and qi: "\<forall>a \<in> set (the_agents c). queue_inv (timeLimit c) a"
  shows "same_session c c' \<and> uint (numAgents c) \<le> INT_MAX \<and>
         (\<forall>i<length (the_agents c).
            queue_inv (timeLimit c) (agent_at c' i) \<and> extends (agent_at c i) (agent_at c' i) \<and>
            filled (agent_at c' i))"
proof -
  define n where "n = length (the_agents c)"
  define L where "L = timeLimit c"
  obtain c1 w1 start1 tot1 where
    fl: "fill_loop c (unat (numAgents c)) w 0 0 0 = (Success, c1, w1, start1, tot1)"
    and last: "(if tot1 \<noteq> 0 then requestUpdates c1 w1 start1 tot1 else (Success, c1, w1))
                = (Success, c', w')"
    using fu unfolding fillUpdateQueues_def by (auto split: prod.splits if_splits)
  have q0: "\<forall>i<n. queue_inv L (agent_at c i)"
    using qi by (simp add: n_def L_def agent_at_def)
  have fl': "fill_loop c n w 0 0 0 = (Success, c1, w1, start1, tot1)"
    using fl assms(2) by (simp add: n_def)
  have "same_session c c1 \<and> int n \<le> INT_MAX \<and>
         (\<forall>i<n. queue_inv L (agent_at c1 i) \<and> extends (agent_at c i) (agent_at c1 i)) \<and>
         start1 \<le> n \<and> needs_sum c1 start1 n = unat tot1 \<and>
         (\<forall>i. i < start1 \<longrightarrow> filled (agent_at c1 i))"
    by (rule fill_loop_inv[OF fl' n_def _ _ _ q0]) (simp_all add: L_def)
  then have r1: "same_session c c1" "int n \<le> INT_MAX"
    "\<And>i. i < n \<Longrightarrow> queue_inv L (agent_at c1 i)"
    "\<And>i. i < n \<Longrightarrow> extends (agent_at c i) (agent_at c1 i)"
    "start1 \<le> n" "needs_sum c1 start1 n = unat tot1"
    "\<And>i. i < start1 \<Longrightarrow> filled (agent_at c1 i)"
    by blast+
  have im: "uint (numAgents c) \<le> INT_MAX"
    using r1(2) assms(2) by (simp add: n_def)
  have n1: "n = length (the_agents c1)" using r1(1) by (simp add: same_session_def n_def)
  have tl1: "timeLimit c1 = L" using r1(1) by (simp add: same_session_def L_def)
  have q1: "\<forall>i<n. queue_inv L (agent_at c1 i)" using r1(3) by simp
  show ?thesis
  proof (cases "tot1 = 0")
    case True
    then have res: "c' = c1" using last by simp
    have z: "needs_sum c1 start1 n = 0" using r1(6) True by simp
    have f: "filled (agent_at c1 i)" if "i < n" for i
    proof (cases "i < start1")
      case True
      then show ?thesis by (rule r1(7))
    next
      case False
      then have "nat (numToRequest c1 i) = 0" using z that by (intro needs_sum_zero) auto
      then show ?thesis using numToRequest_range(1,3)[OF r1(3)[OF that]] by simp
    qed
    show ?thesis using r1 f im by (simp add: res n_def L_def)
  next
    case False
    then have ru: "requestUpdates c1 w1 start1 tot1 = (Success, c', w')" using last by simp
    note r = requestUpdates_inv[OF ru n1 r1(5) order_refl r1(6) q1 tl1]
    have ss: "same_session c c'" using r1(1) r by (blast intro: same_session_trans)
    have ex: "extends (agent_at c i) (agent_at c' i)" if "i < n" for i
    proof -
      have "extends (agent_at c1 i) (agent_at c' i)" using r that by blast
      with r1(4)[OF that] show ?thesis by (rule extends_trans)
    qed
    have f: "filled (agent_at c' i)" if "i < n" for i
    proof (cases "i < start1")
      case True
      then have "agent_at c' i = agent_at c1 i" using r that by simp
      then show ?thesis using r1(7)[OF True] by simp
    next
      case False
      then show ?thesis using r that by simp
    qed
    have qa: "queue_inv L (agent_at c' i)" if "i < n" for i using r that by blast
    show ?thesis using ss ex f qa im by (simp add: n_def L_def)
  qed
qed

text \<open>Advancing an agent.\<close>

lemma window_slot_range: "0 \<le> window_slot a k" "window_slot a k < 6"
  by (simp_all add: window_slot_def UAMP_UPDATE_QUEUE_SIZE_def)

lemma window_slot_position:
  assumes "0 \<le> currentIndex a" "currentIndex a < 6"
  shows "currentIndex a = window_slot a (position a)"
  unfolding window_slot_def UAMP_UPDATE_QUEUE_SIZE_def
  by (rule ring_position[OF assms]) (simp add: position_def UAMP_UPDATE_QUEUE_SIZE_def)

lemma position_eqI:
  assumes "currentIndex a = window_slot a q" "0 \<le> q" "q < 6"
  shows "position a = q"
proof -
  have "position a = ((recvIndex a - aliveInQueue a + q) mod 6 - (recvIndex a - aliveInQueue a)) mod 6"
    unfolding position_def assms(1) window_slot_def UAMP_UPDATE_QUEUE_SIZE_def
    by (simp add: algebra_simps)
  also have "\<dots> = ((recvIndex a - aliveInQueue a + q) - (recvIndex a - aliveInQueue a)) mod 6"
    by (rule mod_diff_left_eq)
  also have "\<dots> = q mod 6" by simp
  also have "\<dots> = q" using assms(2,3) by simp
  finally show ?thesis .
qed

lemma ring_next_window_slot: "ring_next (window_slot a k) = window_slot a (k + 1)"
proof -
  have r: "0 \<le> window_slot a k" "window_slot a k < 6" by (rule window_slot_range)+
  then have "ring_next (window_slot a k) = (window_slot a k + 1) mod 6"
    by (auto simp: ring_next_def UAMP_UPDATE_QUEUE_SIZE_def)
  also have "\<dots> = ((recvIndex a - aliveInQueue a + k) mod 6 + 1) mod 6"
    by (simp add: window_slot_def UAMP_UPDATE_QUEUE_SIZE_def)
  also have "\<dots> = ((recvIndex a - aliveInQueue a + k) + 1) mod 6"
    by (rule mod_add_left_eq)
  also have "\<dots> = window_slot a (k + 1)"
    by (simp add: window_slot_def UAMP_UPDATE_QUEUE_SIZE_def algebra_simps)
  finally show ?thesis .
qed

lemma window_slot_simps [simp]:
  "window_slot (a\<lparr>currentIndex := i\<rparr>) k = window_slot a k"
  "window_slot (a\<lparr>aliveInQueue := aliveInQueue a - 1\<rparr>) k = window_slot a (k + 1)"
  by (simp_all add: window_slot_def algebra_simps)

lemma window_upd_simps [simp]:
  "window_upd (a\<lparr>currentIndex := i\<rparr>) k = window_upd a k"
  "window_upd (a\<lparr>aliveInQueue := aliveInQueue a - 1\<rparr>) k = window_upd a (k + 1)"
  by (simp_all add: window_upd_def)

lemma current_time_window:
  assumes "0 \<le> currentIndex a" "currentIndex a < 6"
  shows "current_time a = upd_time (window_upd a (position a))"
  using window_slot_position[OF assms] by (simp add: current_time_def window_upd_def)

lemma follows_strict:
  "follows L u v \<Longrightarrow> upd_time u \<noteq> L \<Longrightarrow> upd_time u < upd_time v \<and> upd_time v \<le> L"
  by (auto simp: follows_def)

lemma advance_step:
  assumes inv: "queue_inv L a" and two: "2 \<le> aliveInQueue a" and more: "current_time a \<noteq> L"
  defines "a1 \<equiv> (if upd_time (slot a (currentIndex a)) \<noteq> 0
                  then a\<lparr>aliveInQueue := aliveInQueue a - 1\<rparr> else a)"
  defines "a2 \<equiv> (if currentIndex a1 = UAMP_UPDATE_QUEUE_SIZE - 1
                  then a1\<lparr>currentIndex := 0\<rparr>
                  else a1\<lparr>currentIndex := currentIndex a1 + 1\<rparr>)"
  shows "queue_inv L a2 \<and> 1 \<le> aliveInQueue a2 \<and> position a2 = 1 \<and>
         window_upd a2 0 = slot a (currentIndex a) \<and>
         currentIndex a2 = ring_next (currentIndex a) \<and>
         (aliveInQueue a2 = 1 \<longrightarrow> \<not> receivedFinal a2) \<and>
         length (updates a2) = length (updates a) \<and>
         slot a2 (currentIndex a) = slot a (currentIndex a) \<and>
         window_slot a2 0 = currentIndex a"
proof -
  define n where "n = aliveInQueue a"
  define p where "p = position a"
  have b: "int (length (updates a)) = 6" "0 \<le> currentIndex a" "currentIndex a < 6"
    "0 \<le> recvIndex a" "recvIndex a < 6" "n \<le> 6" "2 \<le> n"
    using inv two by (simp_all add: queue_inv_def UAMP_UPDATE_QUEUE_SIZE_def n_def)
  have chain: "\<And>k. 0 \<le> k \<Longrightarrow> k + 1 < n \<Longrightarrow> follows L (window_upd a k) (window_upd a (k + 1))"
    using inv by (simp add: queue_inv_def n_def)
  have fin: "receivedFinal a \<Longrightarrow> upd_time (window_upd a (n - 1)) = L"
    using inv by (simp add: queue_inv_def n_def)
  have lim: "0 < L" using inv two by (simp add: queue_inv_def)
  have pos: "p = 0 \<and> current_time a = 0 \<or>
      p = 1 \<and> upd_time (window_upd a 0) \<noteq> L \<and> upd_time (window_upd a 0) < current_time a"
    using inv two by (auto simp: queue_inv_def p_def)
  have cw: "currentIndex a = window_slot a p"
    unfolding p_def using b(2,3) by (rule window_slot_position)
  have ct: "current_time a = upd_time (window_upd a p)"
    unfolding p_def using b(2,3) by (rule current_time_window)
  have ct': "upd_time (slot a (currentIndex a)) = current_time a" by (simp add: current_time_def)
  have cur2: "currentIndex a2 = ring_next (currentIndex a)"
    by (auto simp: a2_def a1_def ring_next_def)
  have cur2w: "currentIndex a2 = window_slot a (p + 1)"
    unfolding cur2 cw by (rule ring_next_window_slot)
  have len2: "length (updates a2) = length (updates a)" by (simp add: a2_def a1_def)
  have sl2: "slot a2 j = slot a j" for j by (simp add: a2_def a1_def slot_def)
  have rf2: "receivedFinal a2 = receivedFinal a" by (simp add: a2_def a1_def)
  have rv2: "recvIndex a2 = recvIndex a" by (simp add: a2_def a1_def)
  have nz: "0 \<noteq> L" using lim by auto
  from pos show ?thesis
  proof (elim disjE conjE)
    assume p0: "p = 0" and t0: "current_time a = 0"
    have a1eq: "a1 = a" unfolding a1_def ct' using t0 by simp
    have al2: "aliveInQueue a2 = n" by (simp add: a2_def a1eq n_def)
    have ws: "window_slot a2 k = window_slot a k" for k
      by (simp add: window_slot_def al2 rv2 n_def)
    have wu: "window_upd a2 k = window_upd a k" for k
      by (simp add: window_upd_def ws sl2)
    have p2: "position a2 = 1"
      by (rule position_eqI) (simp_all add: cur2w p0 ws)
    have w0: "window_upd a 0 = slot a (currentIndex a)"
      by (simp add: window_upd_def cw p0)
    have t00: "upd_time (window_upd a 0) = 0" using t0 ct p0 by simp
    have f01: "follows L (window_upd a 0) (window_upd a 1)" using chain[of 0] b by simp
    have st: "upd_time (window_upd a 0) < upd_time (window_upd a 1)"
      using follows_strict[OF f01] t00 nz by simp
    have ct2: "current_time a2 = upd_time (window_upd a 1)"
      by (simp add: current_time_def sl2 cur2w p0 window_upd_def)
    have q: "queue_inv L a2"
      unfolding queue_inv_def al2 rv2 rf2 p2 ct2 wu len2 cur2w
      using b chain fin lim st t00 nz window_slot_range[of a "p + 1"] inv
      by (simp add: UAMP_UPDATE_QUEUE_SIZE_def queue_inv_def n_def)
    show ?thesis
      using q p2 cur2 len2 sl2 b by (simp add: al2 wu w0 ws cw p0)
  next
    assume p1: "p = 1" and nl: "upd_time (window_upd a 0) \<noteq> L"
      and lt: "upd_time (window_upd a 0) < current_time a"
    have tn0: "current_time a \<noteq> 0" using lt by (auto simp: word_less_nat_alt)
    have a1eq: "a1 = a\<lparr>aliveInQueue := aliveInQueue a - 1\<rparr>" unfolding a1_def ct' using tn0 by simp
    have al2: "aliveInQueue a2 = n - 1" by (simp add: a2_def a1eq n_def)
    have ws: "window_slot a2 k = window_slot a (k + 1)" for k
      by (simp add: window_slot_def al2 rv2 n_def algebra_simps)
    have wu: "window_upd a2 k = window_upd a (k + 1)" for k
      by (simp add: window_upd_def ws sl2)
    have p2: "position a2 = 1"
      by (rule position_eqI) (simp_all add: cur2w p1 ws)
    have w0: "window_upd a 1 = slot a (currentIndex a)"
      by (simp add: window_upd_def cw p1)
    have c1: "upd_time (window_upd a 1) \<noteq> L" using more ct p1 by simp
    have n3: "receivedFinal a \<Longrightarrow> 3 \<le> n"
    proof -
      assume "receivedFinal a"
      then have "upd_time (window_upd a (n - 1)) = L" by (rule fin)
      then have "n - 1 \<noteq> 1" using c1 by auto
      then show ?thesis using b by simp
    qed
    have ct2: "current_time a2 = upd_time (window_upd a 2)"
      by (simp add: current_time_def sl2 cur2w p1 window_upd_def)
    have st: "3 \<le> n \<Longrightarrow> upd_time (window_upd a 1) < upd_time (window_upd a 2)"
    proof -
      assume "3 \<le> n"
      then have "follows L (window_upd a 1) (window_upd a (1 + 1))" by (intro chain) simp_all
      then show ?thesis using follows_strict c1 by fastforce
    qed
    have chain2: "follows L (window_upd a (k + 1)) (window_upd a (k + 1 + 1))"
      if "0 \<le> k" "k + 1 < n - 1" for k
      using that by (intro chain) simp_all
    have q: "queue_inv L a2"
      unfolding queue_inv_def al2 rv2 rf2 p2 ct2 wu len2 cur2w
      apply (intro conjI)
      subgoal using b by (simp add: UAMP_UPDATE_QUEUE_SIZE_def)
      subgoal using window_slot_range[of a "p + 1"] by simp
      subgoal using window_slot_range[of a "p + 1"] by (simp add: UAMP_UPDATE_QUEUE_SIZE_def)
      subgoal using b by simp
      subgoal using b by (simp add: UAMP_UPDATE_QUEUE_SIZE_def)
      subgoal using b by simp
      subgoal using b by (simp add: UAMP_UPDATE_QUEUE_SIZE_def)
      subgoal using chain2 by simp
      subgoal using n3 fin by (auto simp: algebra_simps)
      subgoal using lim by simp
      subgoal using b c1 st by auto
      done
    have nf: "aliveInQueue a2 = 1 \<longrightarrow> \<not> receivedFinal a2"
      using n3 by (auto simp: al2 rf2)
    show ?thesis
      using q p2 cur2 len2 sl2 b nf by (simp add: al2 wu w0 ws cw p1)
  qed
qed


lemma extends_window_slot:
  assumes "extends a b"
  shows "window_slot b k = window_slot a k"
proof -
  have e: "(recvIndex b - aliveInQueue b) mod 6 = (recvIndex a - aliveInQueue a) mod 6"
    using assms by (simp add: extends_def UAMP_UPDATE_QUEUE_SIZE_def)
  have "window_slot b k = ((recvIndex b - aliveInQueue b) mod 6 + k) mod 6"
    unfolding window_slot_def UAMP_UPDATE_QUEUE_SIZE_def by (rule mod_add_left_eq[symmetric])
  also have "\<dots> = ((recvIndex a - aliveInQueue a) mod 6 + k) mod 6" by (simp only: e)
  also have "\<dots> = window_slot a k"
    unfolding window_slot_def UAMP_UPDATE_QUEUE_SIZE_def by (rule mod_add_left_eq)
  finally show ?thesis .
qed

lemma extends_position:
  assumes "extends a b"
  shows "position b = position a"
proof -
  have e: "(recvIndex b - aliveInQueue b) mod 6 = (recvIndex a - aliveInQueue a) mod 6"
    and c: "currentIndex b = currentIndex a"
    using assms by (simp_all add: extends_def UAMP_UPDATE_QUEUE_SIZE_def)
  have "position b = (currentIndex a - (recvIndex b - aliveInQueue b)) mod 6"
    by (simp add: position_def UAMP_UPDATE_QUEUE_SIZE_def c algebra_simps)
  also have "\<dots> = (currentIndex a - (recvIndex b - aliveInQueue b) mod 6) mod 6"
    by (rule mod_diff_right_eq[symmetric])
  also have "\<dots> = (currentIndex a - (recvIndex a - aliveInQueue a) mod 6) mod 6"
    by (simp only: e)
  also have "\<dots> = (currentIndex a - (recvIndex a - aliveInQueue a)) mod 6"
    by (rule mod_diff_right_eq)
  also have "\<dots> = position a"
    by (simp add: position_def UAMP_UPDATE_QUEUE_SIZE_def algebra_simps)
  finally show ?thesis .
qed

lemma extends_window_upd:
  "extends a b \<Longrightarrow> 0 \<le> k \<Longrightarrow> k < aliveInQueue a \<Longrightarrow> window_upd b k = window_upd a k"
  by (simp add: extends_def)

lemma extends_current_time:
  assumes "extends a b" "queue_inv L a" "position a < aliveInQueue a"
  shows "current_time b = current_time a"
proof -
  have b: "0 \<le> currentIndex a" "currentIndex a < 6"
    using assms(2) by (simp_all add: queue_inv_def UAMP_UPDATE_QUEUE_SIZE_def)
  have c: "currentIndex b = currentIndex a" using assms(1) by (simp add: extends_def)
  have p: "0 \<le> position a" by (simp add: position_def UAMP_UPDATE_QUEUE_SIZE_def)
  have "current_time b = upd_time (window_upd b (position b))"
    using b by (intro current_time_window) (simp_all add: c)
  also have "\<dots> = upd_time (window_upd a (position a))"
    using extends_window_upd[OF assms(1) p assms(3)] extends_position[OF assms(1)] by simp
  also have "\<dots> = current_time a"
    using b by (intro current_time_window[symmetric])
  finally show ?thesis .
qed

lemma agent_ok_inv:
  assumes "i < length (the_agents c)" "queue_inv L (agent_at c i)"
  shows "agent_ok c (int i)"
  using assms
  by (simp add: agent_ok_def slot_ok_def queue_inv_def UAMP_UPDATE_QUEUE_SIZE_def)

lemma advanceAgent_inv:
  assumes aa: "advanceAgent c w (int i) = (Success, c', w')"
    and i: "i < length (the_agents c)" and n: "length (the_agents c) = unat (numAgents c)"
    and rd: "\<forall>a \<in> set (the_agents c). queue_inv (timeLimit c) a \<and> 2 \<le> aliveInQueue a"
    and more: "current_time (agent_at c i) \<noteq> timeLimit c"
  shows "same_session c c' \<and>
     (\<forall>j < length (the_agents c).
        queue_inv (timeLimit c) (agent_at c' j) \<and> 2 \<le> aliveInQueue (agent_at c' j)) \<and>
     (\<forall>j < length (the_agents c). j \<noteq> i \<longrightarrow> extends (agent_at c j) (agent_at c' j)) \<and>
     position (agent_at c' i) = 1 \<and>
     window_upd (agent_at c' i) 0 = slot (agent_at c i) (currentIndex (agent_at c i)) \<and>
     slot (agent_at c' i) (currentIndex (agent_at c i))
       = slot (agent_at c i) (currentIndex (agent_at c i)) \<and>
     current_time (agent_at c i) < current_time (agent_at c' i)"
proof -
  define L where "L = timeLimit c"
  define a where "a = agent_at c i"
  define a1 where "a1 = (if upd_time (slot a (currentIndex a)) \<noteq> 0
                  then a\<lparr>aliveInQueue := aliveInQueue a - 1\<rparr> else a)"
  define a2 where "a2 = (if currentIndex a1 = UAMP_UPDATE_QUEUE_SIZE - 1
                  then a1\<lparr>currentIndex := 0\<rparr>
                  else a1\<lparr>currentIndex := currentIndex a1 + 1\<rparr>)"
  define c1 where "c1 = put_agent c i a2"
  have ra: "queue_inv L (agent_at c j) \<and> 2 \<le> aliveInQueue (agent_at c j)"
    if "j < length (the_agents c)" for j
    using rd that by (simp add: agent_at_def L_def)
  have qa: "queue_inv L a" "2 \<le> aliveInQueue a" using ra[OF i] by (simp_all add: a_def)
  have ok: "agent_ok c (int i)" using i qa(1) unfolding a_def by (rule agent_ok_inv)
  have step: "queue_inv L a2 \<and> 1 \<le> aliveInQueue a2 \<and> position a2 = 1 \<and>
         window_upd a2 0 = slot a (currentIndex a) \<and>
         currentIndex a2 = ring_next (currentIndex a) \<and>
         (aliveInQueue a2 = 1 \<longrightarrow> \<not> receivedFinal a2) \<and>
         length (updates a2) = length (updates a) \<and>
         slot a2 (currentIndex a) = slot a (currentIndex a) \<and>
         window_slot a2 0 = currentIndex a"
    unfolding a2_def a1_def
    by (rule advance_step[OF qa]) (use more in \<open>simp add: a_def L_def\<close>)
  have "advanceAgent c w (int i) =
      (if aliveInQueue a2 = 1 then fillUpdateQueues c1 w else (Success, c1, w))"
    unfolding advanceAgent_def c1_def a2_def a1_def a_def Let_def using ok by simp
  then have res: "(if aliveInQueue a2 = 1 then fillUpdateQueues c1 w else (Success, c1, w))
      = (Success, c', w')"
    using aa by simp
  have ag1: "agent_at c1 j = (if j = i then a2 else agent_at c j)" for j
    using i by (simp add: c1_def agent_at_put_agent)
  have ne: "agents c \<noteq> None" using i by (cases "agents c") (simp_all add: the_agents_def)
  have ss1: "same_session c c1"
    using ne by (simp add: c1_def same_session_def put_agent_def the_agents_def)
  have len1: "length (the_agents c1) = length (the_agents c)" by (simp add: c1_def)
  have tl1: "timeLimit c1 = L" using ss1 by (simp add: same_session_def L_def)
  have q2: "0 \<le> currentIndex a" "currentIndex a < 6"
    using qa(1) by (simp_all add: queue_inv_def UAMP_UPDATE_QUEUE_SIZE_def)
  have final: "same_session c b \<and>
     (\<forall>j < length (the_agents c).
        queue_inv L (agent_at b j) \<and> 2 \<le> aliveInQueue (agent_at b j)) \<and>
     (\<forall>j < length (the_agents c). j \<noteq> i \<longrightarrow> extends (agent_at c j) (agent_at b j)) \<and>
     position (agent_at b i) = 1 \<and>
     window_upd (agent_at b i) 0 = slot a (currentIndex a) \<and>
     slot (agent_at b i) (currentIndex a) = slot a (currentIndex a) \<and>
     current_time a < current_time (agent_at b i)"
    if ssb: "same_session c1 b"
      and qb: "\<And>j. j < length (the_agents c) \<Longrightarrow> queue_inv L (agent_at b j)"
      and eb: "\<And>j. j < length (the_agents c) \<Longrightarrow> extends (agent_at c1 j) (agent_at b j)"
      and tb: "2 \<le> aliveInQueue (agent_at b i)"
    for b
  proof -
    define a' where "a' = agent_at b i"
    have e: "extends a2 a'" using eb[OF i] by (simp add: ag1 a'_def)
    have q': "queue_inv L a'" using qb[OF i] by (simp add: a'_def)
    have p': "position a' = 1" using extends_position[OF e] step by simp
    have w0: "window_upd a' 0 = slot a (currentIndex a)"
      using extends_window_upd[OF e, of 0] step by simp
    have ws: "window_slot a' 0 = currentIndex a" using extends_window_slot[OF e, of 0] step by simp
    have sl: "slot a' (currentIndex a) = slot a (currentIndex a)"
      using w0 by (simp add: window_upd_def ws)
    have "upd_time (window_upd a' 0) < current_time a'"
      using q' p' tb by (auto simp: queue_inv_def a'_def)
    then have lt: "current_time a < current_time a'" by (simp add: w0 current_time_def)
    have oth: "queue_inv L (agent_at b j) \<and> 2 \<le> aliveInQueue (agent_at b j)"
      if j: "j < length (the_agents c)" for j
    proof (cases "j = i")
      case True
      then show ?thesis using q' tb by (simp add: a'_def)
    next
      case False
      have "extends (agent_at c j) (agent_at b j)" using eb[OF j] False by (simp add: ag1)
      then have "aliveInQueue (agent_at c j) \<le> aliveInQueue (agent_at b j)"
        by (simp add: extends_def)
      then show ?thesis using qb[OF j] ra[OF j] by simp
    qed
    have ex: "extends (agent_at c j) (agent_at b j)" if "j < length (the_agents c)" "j \<noteq> i" for j
      using eb[OF that(1)] that(2) by (simp add: ag1)
    have ss: "same_session c b" using ss1 ssb by (rule same_session_trans)
    show ?thesis using ss oth ex p' w0 sl lt by (simp add: a'_def)
  qed
  have goal: "same_session c c' \<and>
     (\<forall>j < length (the_agents c).
        queue_inv L (agent_at c' j) \<and> 2 \<le> aliveInQueue (agent_at c' j)) \<and>
     (\<forall>j < length (the_agents c). j \<noteq> i \<longrightarrow> extends (agent_at c j) (agent_at c' j)) \<and>
     position (agent_at c' i) = 1 \<and>
     window_upd (agent_at c' i) 0 = slot a (currentIndex a) \<and>
     slot (agent_at c' i) (currentIndex a) = slot a (currentIndex a) \<and>
     current_time a < current_time (agent_at c' i)"
  proof (cases "aliveInQueue a2 = 1")
    case False
    then have c': "c' = c1" using res by simp
    have two: "2 \<le> aliveInQueue a2" using step False by simp
    have q1: "queue_inv L (agent_at c1 j)" if "j < length (the_agents c)" for j
      using step ra[OF that] by (simp add: ag1)
    show ?thesis
      unfolding c'
    proof (rule final)
      show "same_session c1 c1" by simp
      show "\<And>j. j < length (the_agents c) \<Longrightarrow> queue_inv L (agent_at c1 j)" by (rule q1)
      show "\<And>j. j < length (the_agents c) \<Longrightarrow> extends (agent_at c1 j) (agent_at c1 j)" by simp
      show "2 \<le> aliveInQueue (agent_at c1 i)" using two by (simp add: ag1)
    qed
  next
    case True
    then have fu: "fillUpdateQueues c1 w = (Success, c', w')" using res by simp
    have n1: "length (the_agents c1) = unat (numAgents c1)"
      using n ss1 by (simp add: same_session_def len1)
    have q1: "\<forall>x \<in> set (the_agents c1). queue_inv (timeLimit c1) x"
    proof
      fix x assume "x \<in> set (the_agents c1)"
      then obtain j where j: "j < length (the_agents c1)" "x = the_agents c1 ! j"
        by (auto simp: in_set_conv_nth)
      then have "x = agent_at c1 j" by (simp add: agent_at_def)
      then show "queue_inv (timeLimit c1) x"
        using step ra[of j] j(1) by (simp add: ag1 len1 tl1)
    qed
    note f = fillUpdateQueues_inv[OF fu n1 q1, unfolded tl1 len1]
    have f1: "same_session c1 c'" using f by blast
    have f2: "queue_inv L (agent_at c' j)" if "j < length (the_agents c)" for j
      using f that by blast
    have f3: "extends (agent_at c1 j) (agent_at c' j)" if "j < length (the_agents c)" for j
      using f that by blast
    have f4: "filled (agent_at c' j)" if "j < length (the_agents c)" for j
      using f that by blast
    have fa: "filled (agent_at c' i)" "queue_inv L (agent_at c' i)"
      "extends a2 (agent_at c' i)"
      using f2[OF i] f3[OF i] f4[OF i] by (simp_all add: ag1)
    have "1 \<le> aliveInQueue (agent_at c' i)" using fa(3) True by (simp add: extends_def)
    then have two: "2 \<le> aliveInQueue (agent_at c' i)"
      using fa(1,2) by (auto simp: filled_def queue_inv_def UAMP_UPDATE_QUEUE_SIZE_def)
    show ?thesis
    proof (rule final)
      show "same_session c1 c'" by (rule f1)
      show "\<And>j. j < length (the_agents c) \<Longrightarrow> queue_inv L (agent_at c' j)" by (rule f2)
      show "\<And>j. j < length (the_agents c) \<Longrightarrow> extends (agent_at c1 j) (agent_at c' j)"
        by (rule f3)
      show "2 \<le> aliveInQueue (agent_at c' i)" by (rule two)
    qed
  qed
  then show ?thesis by (simp add: a_def L_def)
qed

text \<open>The cursors.\<close>

lemma int_of_index_id: "int j \<le> INT_MAX \<Longrightarrow> int_of_index j = int j"
proof -
  assume a: "int j \<le> INT_MAX"
  then have b: "- (2 ^ 31) \<le> int j" "int j < 2 ^ 31" by (simp_all add: INT_MAX_def)
  have "sint (of_nat j :: u32) = signed_take_bit 31 (int j)"
    by (simp add: signed_of_nat)
  also have "\<dots> = int j" using b by (rule signed_take_bit_int_eq_self)
  finally show ?thesis by (simp add: int_of_index_def)
qed

lemma smallest_loop_fold:
  assumes "n = length (the_agents c)" "int n \<le> INT_MAX"
    and "\<forall>j<n. agent_ok c (int j)" and "i \<le> n"
  shows "smallest_loop c n i lm = Some (fold min (drop i (current_times c)) lm)"
  using assms(4)
proof (induction "n - i" arbitrary: i lm)
  case 0
  then have "i = n" by simp
  then show ?case
    using assms(1) by (subst smallest_loop.simps) (simp add: current_times_def)
next
  case (Suc k)
  then have lt: "i < n" by simp
  then have ii: "int_of_index i = int i" using assms(2) by (intro int_of_index_id) simp
  have ok: "agent_ok c (int i)" using lt assms(3) by simp
  have t: "upd_time (update_at c (int i) (getCurrentUpdate c (int i))) = current_time (agent_at c i)"
    by (simp add: update_at_def getCurrentUpdate_def current_time_def)
  have "drop i (the_agents c) = the_agents c ! i # drop (Suc i) (the_agents c)"
    using lt assms(1) by (simp add: Cons_nth_drop_Suc)
  then have d: "drop i (current_times c)
      = current_time (agent_at c i) # drop (Suc i) (current_times c)"
    by (simp add: current_times_def agent_at_def drop_map)
  have ih: "smallest_loop c n (Suc i) l = Some (fold min (drop (Suc i) (current_times c)) l)" for l
    using Suc.hyps(1)[of "Suc i" l] Suc.hyps(2) lt by simp
  have m: "(if t < lm then t else lm) = min t lm" for t :: u32 by (auto simp: min_def)
  show ?case
    by (subst smallest_loop.simps) (simp add: lt ii ok t ih d m Let_def)
qed

lemma fold_min_top:
  fixes xs :: "u32 list"
  assumes "xs \<noteq> []"
  shows "fold min xs 0xFFFFFFFF = Min (set xs)"
proof -
  obtain x rest where xs: "xs = x # rest" using assms by (cases xs) auto
  have top: "min x (0xFFFFFFFF :: u32) = x"
  proof -
    have "(0xFFFFFFFF :: u32) = - 1" by simp
    moreover have "x \<le> (- 1 :: u32)" by (rule word_n1_ge)
    ultimately show ?thesis by (simp only: min_def) simp
  qed
  have "fold min xs 0xFFFFFFFF = fold min rest x" by (simp add: xs top)
  also have "\<dots> = Min (set (x # rest))" by (rule Min.set_eq_fold[symmetric])
  finally show ?thesis by (simp add: xs)
qed

lemma smallest_loop_Min:
  assumes "n = length (the_agents c)" "0 < n" "int n \<le> INT_MAX"
    and "\<forall>j<n. agent_ok c (int j)"
  shows "smallest_loop c n 0 0xFFFFFFFF = Some (Min (set (current_times c)))"
proof -
  have "current_times c \<noteq> []" using assms(1,2) by (simp add: current_times_def)
  then show ?thesis
    using smallest_loop_fold[OF assms(1,3,4), of 0 "0xFFFFFFFF"] by (simp add: fold_min_top)
qed

lemma Min_pointwise:
  fixes xs ys :: "u32 list"
  assumes "length ys = length xs" "xs \<noteq> []" "\<And>j. j < length xs \<Longrightarrow> xs ! j \<le> ys ! j"
  shows "Min (set xs) \<le> Min (set ys)"
proof -
  have ne: "ys \<noteq> []" using assms(1,2) by auto
  then have "Min (set ys) \<in> set ys" by (intro Min_in) simp_all
  then obtain j where j: "j < length ys" "ys ! j = Min (set ys)" by (auto simp: in_set_conv_nth)
  have "Min (set xs) \<le> xs ! j" using j(1) assms(1) by (intro Min_le) simp_all
  also have "\<dots> \<le> ys ! j" using j(1) assms(1,3) by simp
  finally show ?thesis by (simp add: j(2))
qed

lemma Min_unchanged:
  fixes xs ys :: "u32 list"
  assumes "length ys = length xs" "xs \<noteq> []" "\<And>j. j < length xs \<Longrightarrow> xs ! j \<le> ys ! j"
    and "\<And>j. j < length xs \<Longrightarrow> j \<noteq> i \<Longrightarrow> ys ! j = xs ! j"
    and "i < length xs" "xs ! i \<noteq> Min (set xs)"
  shows "Min (set ys) = Min (set xs)"
proof (rule antisym)
  have "Min (set xs) \<in> set xs" using assms(2) by (intro Min_in) simp_all
  then obtain j where j: "j < length xs" "xs ! j = Min (set xs)" by (auto simp: in_set_conv_nth)
  then have "j \<noteq> i" using assms(6) by auto
  then have "ys ! j = Min (set xs)" using assms(4) j by simp
  moreover have "ys ! j \<in> set ys" using j(1) assms(1) by simp
  ultimately show "Min (set ys) \<le> Min (set xs)" by (metis List.finite_set Min_le)
  show "Min (set xs) \<le> Min (set ys)" using assms(1,2,3) by (rule Min_pointwise)
qed


lemma session_inv_nth:
  assumes "session_inv c" "j < length (the_agents c)"
  shows "queue_inv (timeLimit c) (agent_at c j)" "2 \<le> aliveInQueue (agent_at c j)"
    "position (agent_at c j) = 1 \<Longrightarrow>
       upd_time (window_upd (agent_at c j) 0) \<le> largestLastTime c"
  using assms by (simp_all add: session_inv_def agent_at_def)

lemma session_invI:
  assumes "agents c \<noteq> None" "length (the_agents c) = unat (numAgents c)"
    "0 < unat (numAgents c)" "uint (numAgents c) \<le> INT_MAX"
    "\<And>j. j < length (the_agents c) \<Longrightarrow>
       queue_inv (timeLimit c) (agent_at c j) \<and> 2 \<le> aliveInQueue (agent_at c j) \<and>
       (position (agent_at c j) = 1 \<longrightarrow>
          upd_time (window_upd (agent_at c j) 0) \<le> largestLastTime c)"
    "smallestCurrentTime c = Min (set (current_times c))"
  shows "session_inv c"
  unfolding session_inv_def
  using assms by (auto simp: in_set_conv_nth agent_at_def)

lemma queue_inv_position:
  "queue_inv L a \<Longrightarrow> position a = 0 \<or> position a = 1"
  by (auto simp: queue_inv_def)

lemma uampAdvance_inv:
  assumes si: "session_inv c" and ua: "uampAdvance c w agentID = (Success, c', w')"
  shows "session_inv c' \<and> largestLastTime c \<le> largestLastTime c' \<and>
         smallestCurrentTime c \<le> smallestCurrentTime c' \<and> same_session c (c'\<lparr>
           largestLastTime := largestLastTime c, smallestCurrentTime := smallestCurrentTime c\<rparr>)"
proof -
  define n where "n = length (the_agents c)"
  define L where "L = timeLimit c"
  have s0: "agents c \<noteq> None" "n = unat (numAgents c)" "0 < n" "uint (numAgents c) \<le> INT_MAX"
    "smallestCurrentTime c = Min (set (current_times c))"
    using si by (simp_all add: session_inv_def n_def)
  have valid: "0 \<le> agentID" "agentID < uint (numAgents c)"
    using ua by (auto simp: uampAdvance_def split: if_splits)
  define i where "i = nat agentID"
  have ai: "agentID = int i" using valid by (simp add: i_def)
  have "int (nat agentID) < int (unat (numAgents c))" using valid by simp
  then have "i < unat (numAgents c)" unfolding i_def by (simp only: of_nat_less_iff)
  then have i: "i < length (the_agents c)" using si by (simp add: session_inv_def)
  define a where "a = agent_at c i"
  define t0 where "t0 = current_time a"
  have ok: "agent_ok c (int i)"
    using i session_inv_nth(1)[OF si i] by (rule agent_ok_inv)
  have cur: "upd_time (update_at c (int i) (getCurrentUpdate c (int i))) = t0"
    by (simp add: update_at_def getCurrentUpdate_def current_time_def t0_def a_def)
  have more: "current_time (agent_at c i) \<noteq> timeLimit c"
    using ua ok cur unfolding ai uampAdvance_def
    by (auto simp: Let_def t0_def a_def split: if_splits)
  obtain c1 w1 where aa: "advanceAgent c w (int i) = (Success, c1, w1)"
    using ua ok cur more valid unfolding ai uampAdvance_def
    by (auto simp: Let_def t0_def a_def split: if_splits prod.splits)
  have rd: "\<forall>x \<in> set (the_agents c). queue_inv (timeLimit c) x \<and> 2 \<le> aliveInQueue x"
    using si by (simp add: session_inv_def)
  have nn: "length (the_agents c) = unat (numAgents c)" using s0(2) by (simp add: n_def)
  note F = advanceAgent_inv[OF aa i nn rd more, folded a_def L_def n_def t0_def]
  have f1: "same_session c c1" using F by blast
  have f2: "queue_inv L (agent_at c1 j)" "2 \<le> aliveInQueue (agent_at c1 j)" if "j < n" for j
    using F that by blast+
  have f3: "extends (agent_at c j) (agent_at c1 j)" if "j < n" "j \<noteq> i" for j
    using F that by blast
  have f4: "position (agent_at c1 i) = 1"
    "window_upd (agent_at c1 i) 0 = slot a (currentIndex a)"
    "slot (agent_at c1 i) (currentIndex a) = slot a (currentIndex a)"
    "t0 < current_time (agent_at c1 i)"
    using F by blast+
  have n1: "length (the_agents c1) = n" using f1 by (simp add: same_session_def n_def)
  have t1: "upd_time (update_at c1 (int i) (getCurrentUpdate c (int i))) = t0"
    using f4(3) by (simp add: update_at_def getCurrentUpdate_def a_def t0_def current_time_def)
  define c2 where "c2 = (if t0 > largestLastTime c1 then c1\<lparr>largestLastTime := t0\<rparr> else c1)"
  have ag2: "the_agents c2 = the_agents c1" "agent_at c2 j = agent_at c1 j" for j
    by (simp_all add: c2_def)
  have ct2: "current_times c2 = current_times c1" by (simp add: current_times_def ag2)
  have ok2: "\<forall>j<n. agent_ok c2 (int j)"
  proof (intro allI impI)
    fix j assume j: "j < n"
    have "j < length (the_agents c2)" using j by (simp add: ag2 n1)
    moreover have "queue_inv L (agent_at c2 j)" using f2(1)[OF j] by (simp add: ag2)
    ultimately show "agent_ok c2 (int j)" by (rule agent_ok_inv)
  qed
  have na2: "unat (numAgents c2) = n"
    using f1 s0(2) by (simp add: c2_def same_session_def)
  have im: "int n \<le> INT_MAX" using s0(2,4) by simp
  have sl: "smallest_loop c2 (unat (numAgents c2)) 0 0xFFFFFFFF
      = Some (Min (set (current_times c2)))"
    unfolding na2
    by (rule smallest_loop_Min) (use s0(3) im ok2 in \<open>simp_all add: ag2 n1\<close>)
  have g: "0 \<le> int i \<and> int i < uint (numAgents c)" using valid ai by simp
  have more': "upd_time (update_at c (int i) (getCurrentUpdate c (int i))) \<noteq> timeLimit c"
    using more by (simp add: cur t0_def a_def)
  have step1: "uampAdvance c w (int i) =
      (let t = upd_time (update_at c1 (int i) (getCurrentUpdate c (int i)));
           client2 = (if t > largestLastTime c1 then c1\<lparr>largestLastTime := t\<rparr> else c1)
       in if t = smallestCurrentTime client2 then
            (case smallest_loop client2 (unat (numAgents client2)) 0 0xFFFFFFFF of
               None \<Rightarrow> (NoReturn, client2, w1)
             | Some limit \<Rightarrow> (Success, client2\<lparr>smallestCurrentTime := limit\<rparr>, w1))
          else (Success, client2, w1))"
    unfolding uampAdvance_def
    by (simp only: g ok more' aa Let_def simp_thms if_True if_False prod.case ret.simps)
  have "uampAdvance c w (int i) =
      (if t0 = smallestCurrentTime c2
       then (Success, c2\<lparr>smallestCurrentTime := Min (set (current_times c2))\<rparr>, w1)
       else (Success, c2, w1))"
    unfolding step1 Let_def t1 c2_def[symmetric] sl by simp
  then have res: "c' = (if t0 = smallestCurrentTime c2
       then c2\<lparr>smallestCurrentTime := Min (set (current_times c2))\<rparr> else c2)"
    using ua ai by (auto split: if_splits)
  have ag': "the_agents c' = the_agents c1" "agent_at c' j = agent_at c1 j" for j
    by (simp_all add: res ag2)
  have lg1: "largestLastTime c1 = largestLastTime c" "smallestCurrentTime c1 = smallestCurrentTime c"
    "timeLimit c1 = L" "numAgents c1 = numAgents c" "agents c1 \<noteq> None"
    using f1 s0(1) by (simp_all add: same_session_def L_def)
  have lg': "largestLastTime c' = max t0 (largestLastTime c)"
    by (auto simp: res c2_def lg1 max_def)
  have tl': "timeLimit c' = L" "numAgents c' = numAgents c" "agents c' \<noteq> None"
    using lg1 by (auto simp: res c2_def)
  have mono_l: "largestLastTime c \<le> largestLastTime c'" by (simp add: lg')
  text \<open>The current times before and after.\<close>
  have len: "length (current_times c1) = length (current_times c)"
    by (simp add: current_times_def n1 n_def)
  have cne: "current_times c \<noteq> []" using s0(3) by (simp add: current_times_def n_def)
  have nth: "current_times c ! j = current_time (agent_at c j)"
    "current_times c1 ! j = current_time (agent_at c1 j)" if "j < n" for j
    using that by (simp_all add: current_times_def agent_at_def n1 n_def)
  have same: "current_time (agent_at c1 j) = current_time (agent_at c j)" if "j < n" "j \<noteq> i" for j
  proof -
    have j: "j < length (the_agents c)" using that by (simp add: n_def)
    have q: "queue_inv (timeLimit c) (agent_at c j)" using session_inv_nth(1)[OF si j] .
    have "position (agent_at c j) < aliveInQueue (agent_at c j)"
      using queue_inv_position[OF q] session_inv_nth(2)[OF si j] by auto
    then show ?thesis using extends_current_time[OF f3[OF that] q] by simp
  qed
  have ge: "current_times c ! j \<le> current_times c1 ! j" if "j < length (current_times c)" for j
  proof -
    have j: "j < n" using that by (simp add: current_times_def n_def)
    show ?thesis
    proof (cases "j = i")
      case True
      then show ?thesis using f4(4) j by (simp add: nth t0_def a_def)
    next
      case False
      then show ?thesis using same[OF j False] j by (simp add: nth)
    qed
  qed
  have eq: "current_times c1 ! j = current_times c ! j"
    if "j < length (current_times c)" "j \<noteq> i" for j
  proof -
    have j: "j < n" using that by (simp add: current_times_def n_def)
    show ?thesis using same[OF j that(2)] j by (simp add: nth)
  qed
  have il: "i < length (current_times c)" using i by (simp add: current_times_def)
  have ti: "current_times c ! i = t0" using i by (simp add: nth n_def t0_def a_def)
  have mono_min: "Min (set (current_times c)) \<le> Min (set (current_times c1))"
    using len cne ge by (rule Min_pointwise)
  have sm': "smallestCurrentTime c' = Min (set (current_times c1))"
  proof (cases "t0 = smallestCurrentTime c2")
    case True
    then show ?thesis by (simp add: res ct2)
  next
    case False
    have s2: "smallestCurrentTime c2 = Min (set (current_times c))"
      using s0(5) lg1 by (simp add: c2_def)
    have "current_times c ! i \<noteq> Min (set (current_times c))" using False by (simp add: ti s2)
    then have "Min (set (current_times c1)) = Min (set (current_times c))"
      using Min_unchanged[OF len cne ge eq il] by simp
    then show ?thesis using False by (simp add: res s2)
  qed
  have mono_s: "smallestCurrentTime c \<le> smallestCurrentTime c'"
    using mono_min by (simp add: sm' s0(5))
  have per: "queue_inv (timeLimit c') (agent_at c' j) \<and> 2 \<le> aliveInQueue (agent_at c' j) \<and>
       (position (agent_at c' j) = 1 \<longrightarrow>
          upd_time (window_upd (agent_at c' j) 0) \<le> largestLastTime c')"
    if "j < length (the_agents c')" for j
  proof -
    have j: "j < n" using that by (simp add: ag' n1)
    have jc: "j < length (the_agents c)" using j by (simp add: n_def)
    have w: "position (agent_at c1 j) = 1 \<longrightarrow>
          upd_time (window_upd (agent_at c1 j) 0) \<le> max t0 (largestLastTime c)"
    proof (cases "j = i")
      case True
      then show ?thesis by (simp add: f4(2) t0_def current_time_def)
    next
      case False
      have e: "extends (agent_at c j) (agent_at c1 j)" using f3[OF j False] .
      have "0 < aliveInQueue (agent_at c j)" using session_inv_nth(2)[OF si jc] by simp
      then have "window_upd (agent_at c1 j) 0 = window_upd (agent_at c j) 0"
        using extends_window_upd[OF e, of 0] by simp
      moreover have "position (agent_at c1 j) = position (agent_at c j)"
        using extends_position[OF e] .
      ultimately show ?thesis
        using session_inv_nth(3)[OF si jc] by (auto simp: max_def)
    qed
    show ?thesis using f2[OF j] w by (simp add: ag' tl' lg')
  qed
  have inv': "session_inv c'"
  proof (rule session_invI)
    show "agents c' \<noteq> None" by (rule tl')
    show "length (the_agents c') = unat (numAgents c')" using s0(2) by (simp add: ag' n1 tl')
    show "0 < unat (numAgents c')" using s0(2,3) by (simp add: tl')
    show "uint (numAgents c') \<le> INT_MAX" using s0(4) by (simp add: tl')
    show "\<And>j. j < length (the_agents c') \<Longrightarrow>
       queue_inv (timeLimit c') (agent_at c' j) \<and> 2 \<le> aliveInQueue (agent_at c' j) \<and>
       (position (agent_at c' j) = 1 \<longrightarrow>
          upd_time (window_upd (agent_at c' j) 0) \<le> largestLastTime c')"
      by (rule per)
    show "smallestCurrentTime c' = Min (set (current_times c'))"
      by (simp add: sm' current_times_def ag')
  qed
  have ss: "same_session c (c'\<lparr>largestLastTime := largestLastTime c,
      smallestCurrentTime := smallestCurrentTime c\<rparr>)"
    using f1 by (auto simp: res c2_def same_session_def the_agents_def)
  show ?thesis using inv' mono_l mono_s ss by simp
qed

text \<open>Sessions: every reachable state satisfies the invariant.\<close>

lemma advance_oldest_loop_inv:
  assumes "session_inv c" "advance_oldest_loop c n w i oldest = (Success, c', w')"
  shows "session_inv c' \<and> largestLastTime c \<le> largestLastTime c' \<and>
         smallestCurrentTime c \<le> smallestCurrentTime c'"
  using assms
proof (induction c n w i oldest rule: advance_oldest_loop.induct)
  case (1 client n w i oldest)
  note p = "1.prems"
  show ?case
  proof (cases "i < n")
    case False
    then have "c' = client" using p(2) by (subst (asm) advance_oldest_loop.simps) simp
    then show ?thesis using p(1) by simp
  next
    case True
    have ok: "\<not> \<not> agent_ok client (int_of_index i)"
      using p(2) True by (subst (asm) advance_oldest_loop.simps) (auto split: if_splits)
    show ?thesis
    proof (cases "upd_time (update_at client (int_of_index i)
                     (getCurrentUpdate client (int_of_index i))) = oldest")
      case eq: True
      obtain c1 w1 where ua: "uampAdvance client w (int_of_index i) = (Success, c1, w1)"
        and rest: "advance_oldest_loop c1 n w1 (i + 1) oldest = (Success, c', w')"
        using p(2) True ok eq
        by (subst (asm) advance_oldest_loop.simps) (auto split: if_splits prod.splits)
      note a = uampAdvance_inv[OF p(1) ua]
      have y: "(Success, c1, w1) = uampAdvance client w (int_of_index i)" using ua by simp
      have ih: "session_inv c' \<and> largestLastTime c1 \<le> largestLastTime c' \<and>
         smallestCurrentTime c1 \<le> smallestCurrentTime c'"
        using "1.IH"(1)[OF True ok eq y refl _ _ rest] a by simp
      show ?thesis using a ih by auto
    next
      case ne: False
      have rest: "advance_oldest_loop client n w (i + 1) oldest = (Success, c', w')"
        using p(2) True ok ne
        by (subst (asm) advance_oldest_loop.simps) (auto split: if_splits prod.splits)
      show ?thesis using "1.IH"(2)[OF True ok ne p(1) rest] .
    qed
  qed
qed

lemma uampAdvanceOldest_inv:
  assumes "session_inv c" "uampAdvanceOldest c w = (Success, c', w')"
  shows "session_inv c' \<and> largestLastTime c \<le> largestLastTime c' \<and>
         smallestCurrentTime c \<le> smallestCurrentTime c'"
proof -
  have "advance_oldest_loop c (unat (numAgents c)) w 0 (smallestCurrentTime c) = (Success, c', w')"
    using assms(2) by (auto simp: uampAdvanceOldest_def Let_def split: if_splits)
  then show ?thesis using assms(1) by (intro advance_oldest_loop_inv)
qed

lemma session_inv_cong:
  assumes "agents c' = agents c" "numAgents c' = numAgents c" "timeLimit c' = timeLimit c"
    "largestLastTime c' = largestLastTime c" "smallestCurrentTime c' = smallestCurrentTime c"
  shows "session_inv c' = session_inv c"
  using assms by (simp add: session_inv_def the_agents_def current_times_def)

lemma flushStateChanges_frame:
  assumes "flushStateChanges c w = (Success, c', w')"
  shows "agents c' = agents c \<and> numAgents c' = numAgents c \<and> timeLimit c' = timeLimit c \<and>
    largestLastTime c' = largestLastTime c \<and> smallestCurrentTime c' = smallestCurrentTime c"
  using assms unfolding flushStateChanges_def Let_def
  by (auto split: if_splits prod.splits)

lemma uampChangeState_frame:
  assumes "uampChangeState c w a t s = (Success, c', w')"
  shows "agents c' = agents c \<and> numAgents c' = numAgents c \<and> timeLimit c' = timeLimit c \<and>
    largestLastTime c' = largestLastTime c \<and> smallestCurrentTime c' = smallestCurrentTime c"
proof (cases "numStates c = 0")
  case True
  then show ?thesis using assms by (simp add: uampChangeState_def)
next
  case False
  define c1 where "c1 = c\<lparr>changes := (changes c)[nat (numChanges c) :=
       \<lparr>st_agentID = word_of_int a,
        st_time = word_of_int (llround w (dmul t (Finite 1000))),
        st_newState = word_of_int s\<rparr>],
      numChanges := numChanges c + 1\<rparr>"
  have "flushStateChanges c1 w = (Success, c', w') \<or> c' = c1"
    using assms False unfolding uampChangeState_def addStateChange_def Let_def c1_def
    by (auto split: if_splits)
  then show ?thesis
  proof
    assume "flushStateChanges c1 w = (Success, c', w')"
    from flushStateChanges_frame[OF this] show ?thesis by (simp add: c1_def)
  next
    assume "c' = c1"
    then show ?thesis by (simp add: c1_def)
  qed
qed

lemma steps_inv:
  assumes "steps s s'" "session_inv (fst s)"
  shows "session_inv (fst s') \<and> largestLastTime (fst s) \<le> largestLastTime (fst s') \<and>
         smallestCurrentTime (fst s) \<le> smallestCurrentTime (fst s')"
  using assms
proof (induction rule: steps.induct)
  case (no_step s)
  then show ?case by simp
next
  case (advance_step s c w a c' w')
  then have ih: "session_inv c" "largestLastTime (fst s) \<le> largestLastTime c"
    "smallestCurrentTime (fst s) \<le> smallestCurrentTime c" by simp_all
  from uampAdvance_inv[OF ih(1) advance_step.hyps(2)] ih show ?case by auto
next
  case (advance_oldest_step s c w c' w')
  then have ih: "session_inv c" "largestLastTime (fst s) \<le> largestLastTime c"
    "smallestCurrentTime (fst s) \<le> smallestCurrentTime c" by simp_all
  from uampAdvanceOldest_inv[OF ih(1) advance_oldest_step.hyps(2)] ih show ?case by auto
next
  case (change_state_step s c w a t v c' w')
  then have ih: "session_inv c" "largestLastTime (fst s) \<le> largestLastTime c"
    "smallestCurrentTime (fst s) \<le> smallestCurrentTime c" by simp_all
  note f = uampChangeState_frame[OF change_state_step.hyps(2)]
  have "session_inv c' = session_inv c" using f by (intro session_inv_cong) simp_all
  then show ?case using ih f by simp
qed

end
